theory Spec2Isabelle
  imports Main "HOL-Library.Word" "HOL-Library.AList"
begin

unbundle bit_operations_syntax

section \<open>The cluster map of AIStore (ais/clustermap.go)\<close>

text \<open>
  The file under verification is \<^verbatim>\<open>ais/clustermap.go\<close>: the server-side cluster map
  \<^verbatim>\<open>smapX\<close>, its owner \<^verbatim>\<open>smapOwner\<close> and the listeners \<^verbatim>\<open>sls\<close>.

  Go pointers are modelled by an explicit store. A node (\<^verbatim>\<open>*cluster.Snode\<close>) is an
  address into the node heap, a Go map (\<^verbatim>\<open>cluster.NodeMap\<close>, a reference type) is an
  address into the map heap. A map object is an association list (the keys of a Go
  map are unique; the statements that need this say so). Since Go iterates over a map
  in an unspecified order, every \<^verbatim>\<open>range\<close> loop whose effect may depend on the order
  takes the order of the keys as an argument, and looks a key up when it reaches it.
  The struct \<^verbatim>\<open>smapX\<close> itself is passed and returned (state passing).
  A panic (nil dereference, \<^verbatim>\<open>cos.Assert\<close>) is the left summand of the result.
  Code of other packages that the file calls is a parameter (\<^verbatim>\<open>cos.IsValidUUID\<close>,
  \<^verbatim>\<open>DefaultICSize\<close>, the encoder, \<^verbatim>\<open>jsp.SaveMeta\<close>, the comparison of two nodes for
  duplicate addresses) or is modelled from the specification, and is marked so.
\<close>

subsection \<open>Data model\<close>

type_synonym addr = nat

text \<open>
  Modelled from the spec: the node record \<^verbatim>\<open>cluster.Snode\<close> is declared in the package
  \<^verbatim>\<open>cluster\<close>: identity, role (a string, \<^verbatim>\<open>apc.Proxy\<close> or \<^verbatim>\<open>apc.Target\<close>), the flag
  bit set (\<^verbatim>\<open>cos.BitFlags\<close>, an unsigned 64-bit integer) and the network addresses that
  duplicate detection compares.
\<close>

record snode =
  DaemonID :: string
  DaemonType :: string
  Flags :: "64 word"
  PubNet :: string
  ControlNet :: string
  DataNet :: string

text \<open>
  The store: the two heaps, each with its next free address. Allocation takes the next
  free address; nothing is ever freed.
\<close>

record store =
  nodes :: "addr \<Rightarrow> snode"
  nnext :: addr
  maps :: "addr \<Rightarrow> (string \<times> addr) list"
  mnext :: addr

text \<open>
  \<^verbatim>\<open>smapX\<close> with the fields of the embedded \<^verbatim>\<open>cluster.Smap\<close> that the file uses.
  \<^verbatim>\<open>sgl\<close> is the cached encoding (\<^verbatim>\<open>_sgl\<close>, \<^verbatim>\<open>None\<close> for nil).
\<close>

record smapX =
  sgl :: "string option"
  vstr :: string
  Tmap :: addr
  Pmap :: addr
  Primary :: "addr option"
  Version :: "64 word"
  UUID :: string
  CreationTime :: string

datatype fatal = NilDeref | AssertFailed string

datatype error =
    ErrNew string
  | ErrInvalidUUID string
  | ErrSmapUUIDDiffer int string
  | ErrDowngrade
  | ErrDuplicate string string
  | ErrFailedTo string error
  | ErrExternal nat

subsection \<open>Flags (cos.BitFlags) and the node flags of package cluster\<close>

text \<open>
  Modelled from the spec: the four operations of \<^verbatim>\<open>cos.BitFlags\<close> (set, clear, is-set,
  is-any-set) and the flag constants of package \<^verbatim>\<open>cluster\<close> (non-electable, member of
  IC, under maintenance, decommission pending), one bit each.
\<close>

definition Set_flags :: "64 word \<Rightarrow> 64 word \<Rightarrow> 64 word" where
  "Set_flags f flags = f OR flags"

definition Clear_flags :: "64 word \<Rightarrow> 64 word \<Rightarrow> 64 word" where
  "Clear_flags f flags = f AND NOT flags"

definition IsSet :: "64 word \<Rightarrow> 64 word \<Rightarrow> bool" where
  "IsSet f flags = (f AND flags = flags)"

definition IsAnySet :: "64 word \<Rightarrow> 64 word \<Rightarrow> bool" where
  "IsAnySet f flags = (f AND flags \<noteq> 0)"

definition SnodeNonElectable :: "64 word" where "SnodeNonElectable = 1"
definition SnodeIC :: "64 word" where "SnodeIC = 2"
definition SnodeMaintenance :: "64 word" where "SnodeMaintenance = 4"
definition SnodeDecommission :: "64 word" where "SnodeDecommission = 8"

definition NodeFlagsMaintDecomm :: "64 word" where
  "NodeFlagsMaintDecomm = SnodeMaintenance OR SnodeDecommission"

subsection \<open>Accessors of cluster.Snode and cluster.Smap\<close>

text \<open>
  Modelled from the spec: the accessors below are methods of package \<^verbatim>\<open>cluster\<close>.
  \<^verbatim>\<open>GetNode\<close> looks an id up among the targets and then among the proxies;
  \<^verbatim>\<open>IsIC\<close> resolves the node by its id among the proxies and reads its IC flag;
  \<^verbatim>\<open>ICCount\<close> counts the proxies whose IC flag is set.
\<close>

definition IsProxy :: "snode \<Rightarrow> bool" where
  "IsProxy n = (DaemonType n = ''proxy'')"

definition IsTarget :: "snode \<Rightarrow> bool" where
  "IsTarget n = (DaemonType n = ''target'')"

definition isIC :: "snode \<Rightarrow> bool" where
  "isIC n = IsSet (Flags n) SnodeIC"

definition tmap :: "store \<Rightarrow> smapX \<Rightarrow> (string \<times> addr) list" where
  "tmap s m = maps s (Tmap m)"

definition pmap :: "store \<Rightarrow> smapX \<Rightarrow> (string \<times> addr) list" where
  "pmap s m = maps s (Pmap m)"

definition GetTarget :: "store \<Rightarrow> smapX \<Rightarrow> string \<Rightarrow> addr option" where
  "GetTarget s m sid = map_of (tmap s m) sid"

definition GetProxy :: "store \<Rightarrow> smapX \<Rightarrow> string \<Rightarrow> addr option" where
  "GetProxy s m pid = map_of (pmap s m) pid"

definition GetNode :: "store \<Rightarrow> smapX \<Rightarrow> string \<Rightarrow> addr option" where
  "GetNode s m sid =
     (case GetTarget s m sid of Some a \<Rightarrow> Some a | None \<Rightarrow> GetProxy s m sid)"

definition IsIC :: "store \<Rightarrow> smapX \<Rightarrow> addr \<Rightarrow> bool" where
  "IsIC s m psi =
     (case GetProxy s m (DaemonID (nodes s psi)) of
        None \<Rightarrow> False
      | Some a \<Rightarrow> isIC (nodes s a))"

definition ICCount :: "store \<Rightarrow> smapX \<Rightarrow> int" where
  "ICCount s m = int (length (filter (\<lambda>(k, a). isIC (nodes s a)) (pmap s m)))"

text \<open>Writing a field of a node, and a key of a map object, in place.\<close>

definition set_node_flags :: "store \<Rightarrow> addr \<Rightarrow> 64 word \<Rightarrow> store" where
  "set_node_flags s a f = s\<lparr>nodes := (nodes s)(a := (nodes s a)\<lparr>Flags := f\<rparr>)\<rparr>"

definition map_put :: "store \<Rightarrow> addr \<Rightarrow> string \<Rightarrow> addr \<Rightarrow> store" where
  "map_put s ma k v = s\<lparr>maps := (maps s)(ma := AList.update k v (maps s ma))\<rparr>"

definition map_delete :: "store \<Rightarrow> addr \<Rightarrow> string \<Rightarrow> store" where
  "map_delete s ma k = s\<lparr>maps := (maps s)(ma := AList.delete k (maps s ma))\<rparr>"

subsection \<open>smapX: validation\<close>

text \<open>\<^verbatim>\<open>isPresent\<close> (clustermap.go, line 245).\<close>

definition isPresent :: "store \<Rightarrow> smapX \<Rightarrow> addr \<Rightarrow> bool" where
  "isPresent s m si =
     (if IsProxy (nodes s si) then GetProxy s m (DaemonID (nodes s si)) \<noteq> None
      else GetTarget s m (DaemonID (nodes s si)) \<noteq> None)"

text \<open>
  \<^verbatim>\<open>validate\<close> (line 218). The receiver may be nil. \<^verbatim>\<open>cos.IsValidUUID\<close> is not part
  of the file and is the parameter \<open>validUUID\<close>.
\<close>

definition validate ::
  "(string \<Rightarrow> bool) \<Rightarrow> store \<Rightarrow> smapX option \<Rightarrow> fatal + error option" where
  "validate validUUID s mo =
     (case mo of
        None \<Rightarrow> Inr (Some (ErrNew ''Smap is <nil>''))
      | Some m \<Rightarrow>
          if Version m = 0 then Inr (Some (ErrNew ''Smap v0''))
          else (case Primary m of
                  None \<Rightarrow> Inr (Some (ErrNew ''Smap: primary <nil>''))
                | Some p \<Rightarrow>
                    if \<not> isPresent s m p then Inr (Some (ErrNew ''Smap: primary not present''))
                    else if DaemonID (nodes s p) = [] then Inl (AssertFailed ''Primary.ID'')
                    else if \<not> validUUID (UUID m) then Inr (Some (ErrInvalidUUID (UUID m)))
                    else Inr None))"

text \<open>\<^verbatim>\<open>validateUUID\<close> (line 382). It only reads the two structs.\<close>

definition validateUUID ::
  "(string \<Rightarrow> bool) \<Rightarrow> smapX option \<Rightarrow> addr option \<Rightarrow> smapX option \<Rightarrow> string \<Rightarrow> int
     \<Rightarrow> error option" where
  "validateUUID validUUID mo si newSmap caller cieNum =
     (case mo of
        None \<Rightarrow> None
      | Some m \<Rightarrow>
          (case newSmap of
             None \<Rightarrow> None
           | Some n \<Rightarrow>
               if Version n = 0 then None
               else if \<not> validUUID (UUID m) \<or> \<not> validUUID (UUID n) then None
               else if UUID m = UUID n then None
               else Some (ErrSmapUUIDDiffer cieNum (if caller = [] then ''???'' else caller))))"

subsection \<open>smapX: nodes and flags\<close>

text \<open>
  \<^verbatim>\<open>addTarget\<close>, \<^verbatim>\<open>addProxy\<close>, \<^verbatim>\<open>delTarget\<close>, \<^verbatim>\<open>delProxy\<close> (lines 254 to 286).
  \<^verbatim>\<open>cos.Assertf(false, ...)\<close> is fatal. \<^verbatim>\<open>SetName\<close> only caches a printable name.
\<close>

definition addTarget :: "store \<Rightarrow> smapX \<Rightarrow> addr \<Rightarrow> fatal + store \<times> smapX" where
  "addTarget s m tsi =
     (case GetNode s m (DaemonID (nodes s tsi)) of
        Some si \<Rightarrow> Inl (AssertFailed ''FATAL: duplicate SID'')
      | None \<Rightarrow>
          Inr (map_put s (Tmap m) (DaemonID (nodes s tsi)) tsi, m\<lparr>Version := Version m + 1\<rparr>))"

definition addProxy :: "store \<Rightarrow> smapX \<Rightarrow> addr \<Rightarrow> fatal + store \<times> smapX" where
  "addProxy s m psi =
     (case GetNode s m (DaemonID (nodes s psi)) of
        Some si \<Rightarrow> Inl (AssertFailed ''FATAL: duplicate SID'')
      | None \<Rightarrow>
          Inr (map_put s (Pmap m) (DaemonID (nodes s psi)) psi, m\<lparr>Version := Version m + 1\<rparr>))"

definition delTarget :: "store \<Rightarrow> smapX \<Rightarrow> string \<Rightarrow> fatal + store \<times> smapX" where
  "delTarget s m sid =
     (case GetTarget s m sid of
        None \<Rightarrow> Inl (AssertFailed ''FATAL: target is not in'')
      | Some a \<Rightarrow> Inr (map_delete s (Tmap m) sid, m\<lparr>Version := Version m + 1\<rparr>))"

definition delProxy :: "store \<Rightarrow> smapX \<Rightarrow> string \<Rightarrow> fatal + store \<times> smapX" where
  "delProxy s m pid =
     (case GetProxy s m pid of
        None \<Rightarrow> Inl (AssertFailed ''FATAL: proxy is not in'')
      | Some a \<Rightarrow> Inr (map_delete s (Pmap m) pid, m\<lparr>Version := Version m + 1\<rparr>))"

text \<open>\<^verbatim>\<open>putNode\<close> (line 288); the result carries \<^verbatim>\<open>exists\<close>.\<close>

definition putNode ::
  "store \<Rightarrow> smapX \<Rightarrow> addr \<Rightarrow> 64 word \<Rightarrow> fatal + bool \<times> store \<times> smapX" where
  "putNode s m nsi flags =
     (let sid = DaemonID (nodes s nsi);
          s1 = set_node_flags s nsi flags
      in if IsProxy (nodes s1 nsi) then
           (case (if GetProxy s1 m sid \<noteq> None
                  then (case delProxy s1 m sid of
                          Inl f \<Rightarrow> Inl f
                        | Inr (s2, m2) \<Rightarrow> Inr (True, s2, m2))
                  else Inr (False, s1, m)) of
              Inl f \<Rightarrow> Inl f
            | Inr (ex, s2, m2) \<Rightarrow>
                (case addProxy s2 m2 nsi of
                   Inl f \<Rightarrow> Inl f
                 | Inr (s3, m3) \<Rightarrow> Inr (ex, s3, m3)))
         else if \<not> IsTarget (nodes s1 nsi) then Inl (AssertFailed ''nsi.IsTarget'')
         else
           (case (if GetTarget s1 m sid \<noteq> None
                  then (case delTarget s1 m sid of
                          Inl f \<Rightarrow> Inl f
                        | Inr (s2, m2) \<Rightarrow> Inr (True, s2, m2))
                  else Inr (False, s1, m)) of
              Inl f \<Rightarrow> Inl f
            | Inr (ex, s2, m2) \<Rightarrow>
                (case addTarget s2 m2 nsi of
                   Inl f \<Rightarrow> Inl f
                 | Inr (s3, m3) \<Rightarrow> Inr (ex, s3, m3))))"

text \<open>
  \<^verbatim>\<open>_applyFlags\<close>, \<^verbatim>\<open>setNodeFlags\<close>, \<^verbatim>\<open>clearNodeFlags\<close> (lines 407 to 431).
  \<^verbatim>\<open>GetNode\<close> may return nil, and reading \<^verbatim>\<open>si.Flags\<close> then panics.
\<close>

definition applyFlags :: "store \<Rightarrow> smapX \<Rightarrow> addr \<Rightarrow> 64 word \<Rightarrow> store \<times> smapX" where
  "applyFlags s m si newFlags =
     (let s1 = set_node_flags s si newFlags;
          sid = DaemonID (nodes s1 si);
          s2 = (if IsTarget (nodes s1 si) then map_put s1 (Tmap m) sid si
                else map_put s1 (Pmap m) sid si)
      in (s2, m\<lparr>Version := Version m + 1\<rparr>))"

definition setNodeFlags :: "store \<Rightarrow> smapX \<Rightarrow> string \<Rightarrow> 64 word \<Rightarrow> fatal + store \<times> smapX" where
  "setNodeFlags s m sid flags =
     (case GetNode s m sid of
        None \<Rightarrow> Inl NilDeref
      | Some si \<Rightarrow>
          (let newFlags = Set_flags (Flags (nodes s si)) flags;
               newFlags' = (if IsAnySet flags NodeFlagsMaintDecomm
                            then Clear_flags newFlags SnodeIC else newFlags)
           in Inr (applyFlags s m si newFlags')))"

definition clearNodeFlags :: "store \<Rightarrow> smapX \<Rightarrow> string \<Rightarrow> 64 word \<Rightarrow> fatal + store \<times> smapX" where
  "clearNodeFlags s m sid flags =
     (case GetNode s m sid of
        None \<Rightarrow> Inl NilDeref
      | Some si \<Rightarrow> Inr (applyFlags s m si (Clear_flags (Flags (nodes s si)) flags)))"

subsection \<open>smapX: the information committee\<close>

text \<open>
  \<^verbatim>\<open>addIC\<close> (line 196). The argument is a pointer that may be nil (\<^verbatim>\<open>staffIC\<close> passes
  \<^verbatim>\<open>m.Primary\<close>); \<^verbatim>\<open>psi.ID()\<close> then panics.
\<close>

definition addIC :: "store \<Rightarrow> smapX \<Rightarrow> addr option \<Rightarrow> fatal + store \<times> smapX" where
  "addIC s m psio =
     (case psio of
        None \<Rightarrow> Inl NilDeref
      | Some psi \<Rightarrow>
          if \<not> IsIC s m psi then setNodeFlags s m (DaemonID (nodes s psi)) SnodeIC
          else Inr (s, m))"

text \<open>
  \<^verbatim>\<open>_fillIC\<close> (line 156). \<open>dsz\<close> is \<^verbatim>\<open>DefaultICSize()\<close>, a constant of package
  \<^verbatim>\<open>cluster\<close>; \<open>ks\<close> is the order in which \<^verbatim>\<open>range m.Pmap\<close> produces the keys. A key
  is looked up when it is reached.
\<close>

fun fillIC_loop :: "int \<Rightarrow> string list \<Rightarrow> store \<Rightarrow> smapX \<Rightarrow> fatal + store \<times> smapX" where
  "fillIC_loop dsz [] s m = Inr (s, m)"
| "fillIC_loop dsz (k # ks) s m =
     (case map_of (pmap s m) k of
        None \<Rightarrow> fillIC_loop dsz ks s m
      | Some si \<Rightarrow>
          if IsSet (Flags (nodes s si)) SnodeNonElectable then fillIC_loop dsz ks s m
          else (case addIC s m (Some si) of
                  Inl f \<Rightarrow> Inl f
                | Inr (s', m') \<Rightarrow>
                    if ICCount s' m' \<ge> dsz then Inr (s', m')
                    else fillIC_loop dsz ks s' m'))"

definition fillIC :: "int \<Rightarrow> string list \<Rightarrow> store \<Rightarrow> smapX \<Rightarrow> fatal + store \<times> smapX" where
  "fillIC dsz ks s m = (if ICCount s m \<ge> dsz then Inr (s, m) else fillIC_loop dsz ks s m)"

text \<open>\<^verbatim>\<open>evictIC\<close> (line 183): the loop stops at the first member it evicts.\<close>

fun evictIC_loop :: "string list \<Rightarrow> store \<Rightarrow> smapX \<Rightarrow> fatal + store \<times> smapX" where
  "evictIC_loop [] s m = Inr (s, m)"
| "evictIC_loop (sid # ks) s m =
     (case map_of (pmap s m) sid of
        None \<Rightarrow> evictIC_loop ks s m
      | Some si \<Rightarrow>
          (case Primary m of
             None \<Rightarrow> Inl NilDeref
           | Some p \<Rightarrow>
               if sid = DaemonID (nodes s p) \<or> \<not> IsIC s m si then evictIC_loop ks s m
               else clearNodeFlags s m sid SnodeIC))"

definition evictIC :: "int \<Rightarrow> string list \<Rightarrow> store \<Rightarrow> smapX \<Rightarrow> fatal + store \<times> smapX" where
  "evictIC dsz ks s m = (if ICCount s m \<le> dsz then Inr (s, m) else evictIC_loop ks s m)"

text \<open>\<^verbatim>\<open>staffIC\<close> (line 174); \<open>kf\<close> and \<open>ke\<close> are the orders of its two loops.\<close>

definition staffIC ::
  "int \<Rightarrow> string list \<Rightarrow> string list \<Rightarrow> store \<Rightarrow> smapX \<Rightarrow> fatal + store \<times> smapX" where
  "staffIC dsz kf ke s m =
     (case addIC s m (Primary m) of
        Inl f \<Rightarrow> Inl f
      | Inr (s1, m1) \<Rightarrow>
          (case Primary m1 of
             None \<Rightarrow> Inl NilDeref
           | Some p \<Rightarrow>
               (let m2 = m1\<lparr>Primary := GetNode s1 m1 (DaemonID (nodes s1 p))\<rparr>
                in case fillIC dsz kf s1 m2 of
                     Inl f \<Rightarrow> Inl f
                   | Inr (s3, m3) \<Rightarrow> evictIC dsz ke s3 m3)))"

text \<open>
  A sequence of calls of \<^verbatim>\<open>_fillIC\<close> and \<^verbatim>\<open>evictIC\<close>, each with the order of its loop.
\<close>

datatype icop = FillIC "string list" | EvictIC "string list"

fun run_icops :: "int \<Rightarrow> icop list \<Rightarrow> store \<Rightarrow> smapX \<Rightarrow> fatal + store \<times> smapX" where
  "run_icops dsz [] s m = Inr (s, m)"
| "run_icops dsz (FillIC ks # ops) s m =
     (case fillIC dsz ks s m of Inl f \<Rightarrow> Inl f | Inr (s', m') \<Rightarrow> run_icops dsz ops s' m')"
| "run_icops dsz (EvictIC ks # ops) s m =
     (case evictIC dsz ks s m of Inl f \<Rightarrow> Inl f | Inr (s', m') \<Rightarrow> run_icops dsz ops s' m')"

subsection \<open>smapX: clone\<close>

text \<open>
  Modelled from the spec: \<^verbatim>\<open>make(cluster.NodeMap, n)\<close> allocates a new, empty map object;
  \<^verbatim>\<open>Snode.Clone\<close> (package \<^verbatim>\<open>cluster\<close>) allocates a new node record with the fields of
  the old one; \<^verbatim>\<open>cos.CopyStruct(dst, m)\<close> copies the fields of \<open>m\<close> into \<open>dst\<close>
  (the map fields are references, so the copy shares the two map objects).
\<close>

definition alloc_map :: "store \<Rightarrow> addr \<times> store" where
  "alloc_map s = (mnext s, s\<lparr>maps := (maps s)(mnext s := []), mnext := Suc (mnext s)\<rparr>)"

definition Clone_node :: "store \<Rightarrow> addr \<Rightarrow> addr \<times> store" where
  "Clone_node s v = (nnext s, s\<lparr>nodes := (nodes s)(nnext s := nodes s v), nnext := Suc (nnext s)\<rparr>)"

text \<open>\<^verbatim>\<open>init\<close> (line 151); its two arguments are capacity hints.\<close>

definition init_smap :: "store \<Rightarrow> smapX \<Rightarrow> store \<times> smapX" where
  "init_smap s m =
     (let (ta, s1) = alloc_map s;
          (pa, s2) = alloc_map s1
      in (s2, m\<lparr>Tmap := ta, Pmap := pa\<rparr>))"

text \<open>
  \<^verbatim>\<open>newSmap\<close> (line 145): the zero struct with two new maps. (The constant is called
  \<open>newSmapX\<close> because \<^verbatim>\<open>newSmap\<close> is also the name of a parameter of \<^verbatim>\<open>persist\<close>,
  \<^verbatim>\<open>synchronize\<close> and \<^verbatim>\<open>validateUUID\<close>.)
\<close>

definition newSmapX :: "store \<Rightarrow> store \<times> smapX" where
  "newSmapX s =
     init_smap s \<lparr>sgl = None, vstr = [], Tmap = 0, Pmap = 0, Primary = None, Version = 0,
                   UUID = [], CreationTime = []\<rparr>"

text \<open>The loops of \<^verbatim>\<open>clone\<close> (lines 317 to 322): \<^verbatim>\<open>dst.Tmap[id] = v.Clone()\<close>.\<close>

fun clone_loop :: "addr \<Rightarrow> addr \<Rightarrow> string list \<Rightarrow> store \<Rightarrow> store" where
  "clone_loop src dst [] s = s"
| "clone_loop src dst (k # ks) s =
     (case map_of (maps s src) k of
        None \<Rightarrow> clone_loop src dst ks s
      | Some v \<Rightarrow>
          (let (a, s1) = Clone_node s v
           in clone_loop src dst ks (map_put s1 dst k a)))"

text \<open>
  \<^verbatim>\<open>clone\<close> (line 312); \<open>kt\<close> and \<open>kp\<close> are the orders of the two loops.
  \<^verbatim>\<open>m.Primary.ID()\<close> panics when the primary is nil.
\<close>

definition clone :: "string list \<Rightarrow> string list \<Rightarrow> store \<Rightarrow> smapX \<Rightarrow> fatal + store \<times> smapX" where
  "clone kt kp s m =
     (let dst = m;
          (s2, dst1) = init_smap s dst;
          s3 = clone_loop (Tmap m) (Tmap dst1) kt s2;
          s4 = clone_loop (Pmap m) (Pmap dst1) kp s3
      in case Primary m of
           None \<Rightarrow> Inl NilDeref
         | Some p \<Rightarrow>
             Inr (s4, dst1\<lparr>Primary := GetProxy s4 dst1 (DaemonID (nodes s4 p)), sgl := None\<rparr>))"

subsection \<open>smapX: merge\<close>

text \<open>
  Modelled from the spec: \<^verbatim>\<open>Smap.IsDuplicate\<close> (package \<^verbatim>\<open>cluster\<close>) is the
  duplicate-URL/IP detection: it returns a node of the map, with another id, whose
  network addresses collide with those of the new node, and an error; or nil and no
  error. The comparison of two node records is the parameter \<open>dup\<close>. Which of
  several colliding nodes is returned follows the order of the lists; no statement
  below depends on it.
\<close>

definition IsDuplicate ::
  "(snode \<Rightarrow> snode \<Rightarrow> bool) \<Rightarrow> store \<Rightarrow> smapX \<Rightarrow> addr \<Rightarrow> addr option" where
  "IsDuplicate dup s m nsi =
     (case find (\<lambda>(k, a). DaemonID (nodes s a) \<noteq> DaemonID (nodes s nsi)
                          \<and> dup (nodes s nsi) (nodes s a)) (tmap s m @ pmap s m) of
        None \<Rightarrow> None
      | Some (k, a) \<Rightarrow> Some a)"

text \<open>\<^verbatim>\<open>handleDuplicateNode\<close> (line 362).\<close>

definition handleDuplicateNode ::
  "(snode \<Rightarrow> snode \<Rightarrow> bool) \<Rightarrow> store \<Rightarrow> smapX \<Rightarrow> addr \<Rightarrow> bool
     \<Rightarrow> fatal + error option \<times> store \<times> smapX" where
  "handleDuplicateNode dup s m nsi del =
     (case IsDuplicate dup s m nsi of
        None \<Rightarrow> Inr (None, s, m)
      | Some osi \<Rightarrow>
          if \<not> del
          then Inr (Some (ErrDuplicate (DaemonID (nodes s nsi)) (DaemonID (nodes s osi))), s, m)
          else (case (if IsProxy (nodes s osi) then delProxy s m (DaemonID (nodes s osi))
                      else delTarget s m (DaemonID (nodes s osi))) of
                  Inl f \<Rightarrow> Inl f
                | Inr (s', m') \<Rightarrow> Inr (None, s', m')))"

text \<open>
  The two loops of \<^verbatim>\<open>merge\<close> (lines 329 to 352) over the maps of \<open>m\<close>, in the orders
  \<open>ks\<close>; \<open>dst\<close> is the destination and \<open>added\<close> the running count.
\<close>

fun merge_T ::
  "(snode \<Rightarrow> snode \<Rightarrow> bool) \<Rightarrow> bool \<Rightarrow> smapX \<Rightarrow> string list \<Rightarrow> store \<Rightarrow> smapX \<Rightarrow> int
     \<Rightarrow> fatal + int \<times> error option \<times> store \<times> smapX" where
  "merge_T dup override m [] s dst added = Inr (added, None, s, dst)"
| "merge_T dup override m (k # ks) s dst added =
     (case map_of (tmap s m) k of
        None \<Rightarrow> merge_T dup override m ks s dst added
      | Some si \<Rightarrow>
          (case handleDuplicateNode dup s dst si override of
             Inl f \<Rightarrow> Inl f
           | Inr (Some e, s1, dst1) \<Rightarrow> Inr (added, Some e, s1, dst1)
           | Inr (None, s1, dst1) \<Rightarrow>
               if map_of (tmap s1 dst1) k = None \<and> map_of (pmap s1 dst1) k = None
               then merge_T dup override m ks (map_put s1 (Tmap dst1) k si) dst1 (added + 1)
               else merge_T dup override m ks s1 dst1 added))"

fun merge_P ::
  "(snode \<Rightarrow> snode \<Rightarrow> bool) \<Rightarrow> bool \<Rightarrow> smapX \<Rightarrow> string list \<Rightarrow> store \<Rightarrow> smapX \<Rightarrow> int
     \<Rightarrow> fatal + int \<times> error option \<times> store \<times> smapX" where
  "merge_P dup override m [] s dst added = Inr (added, None, s, dst)"
| "merge_P dup override m (k # ks) s dst added =
     (case map_of (pmap s m) k of
        None \<Rightarrow> merge_P dup override m ks s dst added
      | Some si \<Rightarrow>
          (case handleDuplicateNode dup s dst si override of
             Inl f \<Rightarrow> Inl f
           | Inr (Some e, s1, dst1) \<Rightarrow> Inr (added, Some e, s1, dst1)
           | Inr (None, s1, dst1) \<Rightarrow>
               if map_of (pmap s1 dst1) k = None \<and> map_of (tmap s1 dst1) k = None
               then merge_P dup override m ks (map_put s1 (Pmap dst1) k si) dst1 (added + 1)
               else merge_P dup override m ks s1 dst1 added))"

text \<open>\<^verbatim>\<open>merge\<close> (line 328): the result is \<^verbatim>\<open>(added, err)\<close>, the store and \<open>dst\<close>.\<close>

definition merge ::
  "(snode \<Rightarrow> snode \<Rightarrow> bool) \<Rightarrow> string list \<Rightarrow> string list \<Rightarrow> store \<Rightarrow> smapX \<Rightarrow> smapX \<Rightarrow> bool
     \<Rightarrow> fatal + int \<times> error option \<times> store \<times> smapX" where
  "merge dup kt kp s m dst override =
     (case merge_T dup override m kt s dst 0 of
        Inl f \<Rightarrow> Inl f
      | Inr (added, Some e, s1, dst1) \<Rightarrow> Inr (added, Some e, s1, dst1)
      | Inr (added, None, s1, dst1) \<Rightarrow>
          (case merge_P dup override m kp s1 dst1 added of
             Inl f \<Rightarrow> Inl f
           | Inr (added', Some e, s2, dst2) \<Rightarrow> Inr (added', Some e, s2, dst2)
           | Inr (added', None, s2, dst2) \<Rightarrow>
               Inr (added', None, s2,
                    if UUID m \<noteq> [] \<and> UUID dst2 = []
                    then dst2\<lparr>UUID := UUID m, CreationTime := CreationTime m\<rparr>
                    else dst2)))"

subsection \<open>smapOwner\<close>

text \<open>
  The owner: the published snapshot (the atomic pointer, nil at first), \<^verbatim>\<open>immSize\<close>,
  the file at \<^verbatim>\<open>fpath\<close> (\<open>disk\<close>, of any type), and of the listeners \<^verbatim>\<open>sls\<close> the
  flag \<^verbatim>\<open>running\<close> and the versions sent on \<^verbatim>\<open>postCh\<close>. The mutex is not modelled:
  one call runs at a time.
\<close>

record 'd smapOwner =
  smap :: "smapX option"
  immSize :: int
  disk :: 'd
  running :: bool
  postCh :: "64 word list"

text \<open>
  \<^verbatim>\<open>strconv.FormatInt(v, 10)\<close> of the Go library.
\<close>

fun digits10 :: "nat \<Rightarrow> string" where
  "digits10 n =
     (if n < 10 then [char_of (48 + n)]
      else digits10 (n div 10) @ [char_of (48 + n mod 10)])"

definition FormatInt :: "64 word \<Rightarrow> string" where
  "FormatInt v =
     (if sint v < 0 then CHR ''-'' # digits10 (nat (- sint v)) else digits10 (nat (sint v)))"

text \<open>\<^verbatim>\<open>notify\<close> (line 638) and \<^verbatim>\<open>put\<close> (line 465).\<close>

definition notify :: "'d smapOwner \<Rightarrow> 64 word \<Rightarrow> fatal + 'd smapOwner" where
  "notify r ver =
     (if sint ver < 0 then Inl (AssertFailed ''ver >= 0'')
      else Inr (if running r then r\<lparr>postCh := postCh r @ [ver]\<rparr> else r))"

definition put :: "'d smapOwner \<Rightarrow> smapX \<Rightarrow> fatal + 'd smapOwner \<times> smapX" where
  "put r sm =
     (let sm' = sm\<lparr>vstr := FormatInt (Version sm)\<rparr>
      in case notify (r\<lparr>smap := Some sm'\<rparr>) (Version sm') of
           Inl f \<Rightarrow> Inl f
         | Inr r' \<Rightarrow> Inr (r', sm'))"

text \<open>
  \<^verbatim>\<open>persistBytes\<close> (line 509) and \<^verbatim>\<open>persist\<close> (line 527). \<^verbatim>\<open>jsp.SaveMeta\<close> and the
  encoder \<^verbatim>\<open>jsp.Encode\<close> are not part of the file: \<open>SaveMeta\<close> takes the file and the
  bytes and returns an error or nil and the file; \<open>encode\<close> gives the bytes of a map.
\<close>

text \<open>
  Modelled from the spec: the fixed tag string under which a peer update payload
  carries the bytes of the map; the constant is declared elsewhere in package \<^verbatim>\<open>ais\<close>.
\<close>

definition revsSmapTag :: string where
  "revsSmapTag = ''Smap''"

definition persistBytes ::
  "('d \<Rightarrow> string \<Rightarrow> error option \<times> 'd) \<Rightarrow> 'd smapOwner \<Rightarrow> (string \<rightharpoonup> string) option
     \<Rightarrow> bool \<times> 'd smapOwner" where
  "persistBytes SaveMeta r payload =
     (case payload of
        None \<Rightarrow> (False, r)
      | Some pl \<Rightarrow>
          (case pl revsSmapTag of
             None \<Rightarrow> (False, r)
           | Some smapValue \<Rightarrow>
               (let (err, d) = SaveMeta (disk r) smapValue
                in (err = None, r\<lparr>disk := d\<rparr>))))"

definition persist ::
  "(store \<Rightarrow> smapX \<Rightarrow> string) \<Rightarrow> ('d \<Rightarrow> string \<Rightarrow> error option \<times> 'd) \<Rightarrow> 'd smapOwner
     \<Rightarrow> store \<Rightarrow> smapX \<Rightarrow> error option \<times> 'd smapOwner" where
  "persist encode SaveMeta r s newSmap =
     (case sgl newSmap of
        Some wto \<Rightarrow>
          (let (err, d) = SaveMeta (disk r) wto in (err, r\<lparr>disk := d\<rparr>))
      | None \<Rightarrow>
          (let wto = encode s newSmap;
               r1 = r\<lparr>immSize := max (immSize r) (int (length wto))\<rparr>;
               (err, d) = SaveMeta (disk r1) wto
           in (err, r1\<lparr>disk := d\<rparr>)))"

text \<open>
  \<^verbatim>\<open>synchronize\<close> (line 476). \<open>dbg\<close> says whether \<^verbatim>\<open>debug.Assertf\<close> is compiled in.
  \<^verbatim>\<open>r.Get()\<close> takes the address of a field of the published struct and panics when the
  pointer is nil. The result is the error (or nil), the owner and the store.
\<close>

definition synchronize ::
  "(string \<Rightarrow> bool) \<Rightarrow> bool \<Rightarrow> (store \<Rightarrow> smapX \<Rightarrow> string) \<Rightarrow> ('d \<Rightarrow> string \<Rightarrow> error option \<times> 'd)
     \<Rightarrow> 'd smapOwner \<Rightarrow> store \<Rightarrow> addr \<Rightarrow> smapX option \<Rightarrow> (string \<rightharpoonup> string) option
     \<Rightarrow> fatal + error option \<times> 'd smapOwner \<times> store" where
  "synchronize validUUID dbg encode SaveMeta r s si newSmap payload =
     (case validate validUUID s newSmap of
        Inl f \<Rightarrow> Inl f
      | Inr (Some e) \<Rightarrow> if dbg then Inl (AssertFailed ''is invalid'') else Inr (Some e, r, s)
      | Inr None \<Rightarrow>
          (case newSmap of
             None \<Rightarrow> Inl NilDeref
           | Some n \<Rightarrow>
               (case smap r of
                  None \<Rightarrow> Inl NilDeref
                | Some cur \<Rightarrow>
                    (let s1 = (case GetNode s n (DaemonID (nodes s si)) of
                                 None \<Rightarrow> s
                               | Some nsi \<Rightarrow>
                                   if Flags (nodes s si) \<noteq> Flags (nodes s nsi)
                                   then set_node_flags s si (Flags (nodes s nsi)) else s)
                     in if sint (Version n) \<le> sint (Version cur)
                        then (if sint (Version n) < sint (Version cur)
                              then Inr (Some ErrDowngrade, r, s1)
                              else Inr (None, r, s1))
                        else
                          (let (done, r1) = persistBytes SaveMeta r payload;
                               (err, r2) = (if \<not> done then persist encode SaveMeta r1 s1 n
                                            else (None, r1))
                           in case err of
                                Some e \<Rightarrow> Inr (Some e, r2, s1)
                              | None \<Rightarrow>
                                  (case put r2 n of
                                     Inl f \<Rightarrow> Inl f
                                   | Inr (r3, n') \<Rightarrow> Inr (None, r3, s1)))))))"

text \<open>
  The modifier \<^verbatim>\<open>smapModifier\<close>: of its fields the three callbacks matter here. A
  callback is code of the caller; it is given the store and the clone and returns
  them, \<^verbatim>\<open>pre\<close> with its error. \<^verbatim>\<open>post\<close> and \<^verbatim>\<open>final\<close> may be nil.
\<close>

record smapModifier =
  pre :: "store \<Rightarrow> smapX \<Rightarrow> error option \<times> store \<times> smapX"
  post :: "(store \<Rightarrow> smapX \<Rightarrow> store \<times> smapX) option"
  final :: "(store \<Rightarrow> smapX \<Rightarrow> store \<times> smapX) option"

text \<open>
  \<^verbatim>\<open>_runPre\<close> (line 540); \<open>kt\<close> and \<open>kp\<close> are the orders of the loops of \<^verbatim>\<open>clone\<close>.
  The result is \<^verbatim>\<open>(clone, err)\<close>, the owner and the store. The published pointer is
  the clone, so what \<^verbatim>\<open>post\<close> does to the clone shows in the owner. When there is no
  error the clone is not nil.
\<close>

definition runPre ::
  "(store \<Rightarrow> smapX \<Rightarrow> string) \<Rightarrow> ('d \<Rightarrow> string \<Rightarrow> error option \<times> 'd) \<Rightarrow> string list \<Rightarrow> string list
     \<Rightarrow> 'd smapOwner \<Rightarrow> store \<Rightarrow> smapModifier
     \<Rightarrow> fatal + smapX option \<times> error option \<times> 'd smapOwner \<times> store" where
  "runPre encode SaveMeta kt kp r s ctx =
     (case smap r of
        None \<Rightarrow> Inl NilDeref
      | Some cur \<Rightarrow>
          (case clone kt kp s cur of
             Inl f \<Rightarrow> Inl f
           | Inr (s1, cl) \<Rightarrow>
               (case pre ctx s1 cl of
                  (Some e, s2, cl2) \<Rightarrow> Inr (Some cl2, Some e, r, s2)
                | (None, s2, cl2) \<Rightarrow>
                    (let wto = encode s2 cl2;
                         cl3 = cl2\<lparr>sgl := Some wto\<rparr>;
                         r1 = r\<lparr>immSize := max (immSize r) (int (length wto))\<rparr>;
                         (err, r2) = persist encode SaveMeta r1 s2 cl3
                     in case err of
                          Some e \<Rightarrow> Inr (None, Some (ErrFailedTo ''persist'' e), r2, s2)
                        | None \<Rightarrow>
                            (let cl4 = (if final ctx = None then cl3\<lparr>sgl := None\<rparr> else cl3)
                             in case put r2 cl4 of
                                  Inl f \<Rightarrow> Inl f
                                | Inr (r3, cl5) \<Rightarrow>
                                    (case post ctx of
                                       None \<Rightarrow> Inr (Some cl5, None, r3, s2)
                                     | Some po \<Rightarrow>
                                         (let (s3, cl6) = po s2 cl5
                                          in Inr (Some cl6, None, r3\<lparr>smap := Some cl6\<rparr>, s3))))))))"

text \<open>\<^verbatim>\<open>modify\<close> (line 564).\<close>

definition modify ::
  "(store \<Rightarrow> smapX \<Rightarrow> string) \<Rightarrow> ('d \<Rightarrow> string \<Rightarrow> error option \<times> 'd) \<Rightarrow> string list \<Rightarrow> string list
     \<Rightarrow> 'd smapOwner \<Rightarrow> store \<Rightarrow> smapModifier
     \<Rightarrow> fatal + error option \<times> 'd smapOwner \<times> store" where
  "modify encode SaveMeta kt kp r s ctx =
     (case runPre encode SaveMeta kt kp r s ctx of
        Inl f \<Rightarrow> Inl f
      | Inr (cl, Some e, r', s') \<Rightarrow> Inr (Some e, r', s')
      | Inr (cl, None, r', s') \<Rightarrow>
          (case final ctx of
             None \<Rightarrow> Inr (None, r', s')
           | Some fi \<Rightarrow>
               (case cl of
                  None \<Rightarrow> Inl NilDeref
                | Some c \<Rightarrow>
                    (let (s'', c') = fi s' c
                     in Inr (None, r'\<lparr>smap := Some c'\<rparr>, s'')))))"

subsection \<open>Notions used in the statements\<close>

text \<open>
  The node ids of a snapshot (the keys of its two maps), the addresses of its nodes,
  the absence of a duplicate-URL/IP conflict between any two nodes of a set, and the
  orders in which a \<^verbatim>\<open>range\<close> loop may produce the keys of a map.
\<close>

definition ids :: "store \<Rightarrow> smapX \<Rightarrow> string set" where
  "ids s m = fst ` set (tmap s m) \<union> fst ` set (pmap s m)"

definition node_addrs :: "store \<Rightarrow> smapX \<Rightarrow> addr set" where
  "node_addrs s m = snd ` set (tmap s m) \<union> snd ` set (pmap s m)"

definition conflict_free :: "(snode \<Rightarrow> snode \<Rightarrow> bool) \<Rightarrow> store \<Rightarrow> addr set \<Rightarrow> bool" where
  "conflict_free dup s R =
     (\<forall>a\<in>R. \<forall>b\<in>R. DaemonID (nodes s a) \<noteq> DaemonID (nodes s b)
                     \<longrightarrow> \<not> dup (nodes s a) (nodes s b))"

definition is_order :: "string list \<Rightarrow> (string \<times> addr) list \<Rightarrow> bool" where
  "is_order ks al = (distinct ks \<and> set ks = fst ` set al)"

text \<open>
  A snapshot lives in a store: its two map objects and its nodes have been allocated.
\<close>

definition allocated :: "store \<Rightarrow> smapX \<Rightarrow> bool" where
  "allocated s m =
     (Tmap m < mnext s \<and> Pmap m < mnext s \<and> (\<forall>a\<in>node_addrs s m. a < nnext s)
      \<and> (case Primary m of None \<Rightarrow> True | Some p \<Rightarrow> p < nnext s))"

text \<open>
  Well-formedness of the proxy map, as the operations on the IC need it: the two maps
  are different objects, the keys of the proxy map are unique, every proxy is stored
  under its own id, no node of the proxy map has the role of a target, and no id is a
  key of both maps.
\<close>

definition wf_ic :: "store \<Rightarrow> smapX \<Rightarrow> bool" where
  "wf_ic s m =
     (Tmap m \<noteq> Pmap m
      \<and> distinct (map fst (pmap s m))
      \<and> (\<forall>(k, a)\<in>set (pmap s m). DaemonID (nodes s a) = k \<and> \<not> IsTarget (nodes s a))
      \<and> fst ` set (tmap s m) \<inter> fst ` set (pmap s m) = {})"

text \<open>The number of IC members after a call, when the call returns.\<close>

definition ic_after :: "fatal + store \<times> smapX \<Rightarrow> int option" where
  "ic_after r = (case r of Inl f \<Rightarrow> None | Inr (s, m) \<Rightarrow> Some (ICCount s m))"

text \<open>The version after a call, when the call returns.\<close>

definition version_after :: "fatal + store \<times> smapX \<Rightarrow> 64 word option" where
  "version_after r = (case r of Inl f \<Rightarrow> None | Inr (s, m) \<Rightarrow> Some (Version m))"

text \<open>One call after another: the second runs on the result of the first.\<close>

definition and_then ::
  "fatal + store \<times> smapX \<Rightarrow> (store \<Rightarrow> smapX \<Rightarrow> fatal + store \<times> smapX)
     \<Rightarrow> fatal + store \<times> smapX" where
  "and_then r f = (case r of Inl e \<Rightarrow> Inl e | Inr (s, m) \<Rightarrow> f s m)"

text \<open>
  Two stores that differ at most in the flags of nodes, the non-electable flag
  excepted; and a set of keys of the proxy map whose electable proxies are all
  members of the IC.
\<close>

definition flags_only :: "store \<Rightarrow> store \<Rightarrow> bool" where
  "flags_only s s' =
     (maps s' = maps s \<and> nnext s' = nnext s \<and> mnext s' = mnext s
      \<and> (\<forall>a. DaemonID (nodes s' a) = DaemonID (nodes s a)
             \<and> DaemonType (nodes s' a) = DaemonType (nodes s a)
             \<and> IsSet (Flags (nodes s' a)) SnodeNonElectable
                 = IsSet (Flags (nodes s a)) SnodeNonElectable))"

definition full_on :: "string set \<Rightarrow> store \<Rightarrow> smapX \<Rightarrow> bool" where
  "full_on K s m =
     (\<forall>k\<in>K. \<forall>a. map_of (pmap s m) k = Some a
                   \<longrightarrow> \<not> IsSet (Flags (nodes s a)) SnodeNonElectable
                   \<longrightarrow> isIC (nodes s a))"

section \<open>Example snapshots\<close>

text \<open>
  A cluster of five proxies, all members of the IC, and one target (\<open>ex_smap\<close>); the
  node at address 6 is proxy \<open>p2\<close> joining again. A second snapshot \<open>ex_smap2\<close> in the
  same store has one target and one proxy of its own.
\<close>

definition mk_node :: "string \<Rightarrow> string \<Rightarrow> 64 word \<Rightarrow> string \<Rightarrow> snode" where
  "mk_node i ty f url =
     \<lparr>DaemonID = i, DaemonType = ty, Flags = f, PubNet = url, ControlNet = url, DataNet = url\<rparr>"

definition ex_store :: store where
  "ex_store =
     \<lparr>nodes = (\<lambda>a. mk_node [] [] 0 [])
        (0 := mk_node ''p1'' ''proxy'' 2 ''10.0.0.1'',
         1 := mk_node ''p2'' ''proxy'' 2 ''10.0.0.2'',
         2 := mk_node ''p3'' ''proxy'' 2 ''10.0.0.3'',
         3 := mk_node ''p4'' ''proxy'' 2 ''10.0.0.4'',
         4 := mk_node ''p5'' ''proxy'' 2 ''10.0.0.5'',
         5 := mk_node ''t1'' ''target'' 0 ''10.0.0.6'',
         6 := mk_node ''p2'' ''proxy'' 0 ''10.0.0.7'',
         7 := mk_node ''t2'' ''target'' 0 ''10.0.0.8'',
         8 := mk_node ''p6'' ''proxy'' 0 ''10.0.0.9''),
      nnext = 9,
      maps = (\<lambda>a. [])
        (0 := [(''t1'', 5)],
         1 := [(''p1'', 0), (''p2'', 1), (''p3'', 2), (''p4'', 3), (''p5'', 4)],
         2 := [(''t2'', 7)],
         3 := [(''p6'', 8)]),
      mnext = 4\<rparr>"

definition ex_smap :: smapX where
  "ex_smap = \<lparr>sgl = None, vstr = ''10'', Tmap = 0, Pmap = 1, Primary = Some 0, Version = 10,
     UUID = ''cluster-A'', CreationTime = ''0''\<rparr>"

definition ex_smap2 :: smapX where
  "ex_smap2 = \<lparr>sgl = None, vstr = ''4'', Tmap = 2, Pmap = 3, Primary = Some 8, Version = 4,
     UUID = [], CreationTime = []\<rparr>"

text \<open>A duplicate test for the examples: two nodes share a network address.\<close>

definition same_net :: "snode \<Rightarrow> snode \<Rightarrow> bool" where
  "same_net x y = (PubNet x = PubNet y \<or> ControlNet x = ControlNet y \<or> DataNet x = DataNet y)"

text \<open>A stand-in for \<^verbatim>\<open>cos.IsValidUUID\<close> in the examples: at least nine characters.\<close>

definition uuid_len9 :: "string \<Rightarrow> bool" where
  "uuid_len9 u = (9 \<le> length u)"

text \<open>What a caller of \<^verbatim>\<open>putNode\<close> observes: \<^verbatim>\<open>exists\<close> and the version.\<close>

definition putNode_obs :: "store \<Rightarrow> smapX \<Rightarrow> addr \<Rightarrow> 64 word \<Rightarrow> (bool \<times> 64 word) option" where
  "putNode_obs s m nsi flags =
     (case putNode s m nsi flags of
        Inl f \<Rightarrow> None
      | Inr (ex, s', m') \<Rightarrow> Some (ex, Version m'))"

text \<open>
  A store in which the snapshot \<open>ex_smap\<close> breaks two of the invariants: the id
  \<open>p2\<close> is a target and a proxy, and all five proxies are members of the IC.
\<close>

definition bad_store :: store where
  "bad_store =
     ex_store\<lparr>nodes := (nodes ex_store)(7 := mk_node ''p2'' ''target'' 0 ''10.0.0.8''),
              maps := (maps ex_store)(0 := [(''t1'', 5), (''p2'', 7)])\<rparr>"

text \<open>
  An owner that has published \<open>ex_smap\<close>, with a running listener. In the examples
  the file is the bytes written last, the encoding of a snapshot is its version string,
  and \<open>ex_SaveMeta\<close> fails on empty input.
\<close>

definition ex_owner :: "string smapOwner" where
  "ex_owner = \<lparr>smap = Some ex_smap, immSize = 0, disk = [], running = True, postCh = []\<rparr>"

definition ex_encode :: "store \<Rightarrow> smapX \<Rightarrow> string" where
  "ex_encode s m = vstr m"

definition ex_SaveMeta :: "string \<Rightarrow> string \<Rightarrow> error option \<times> string" where
  "ex_SaveMeta d b = (if b = [] then (Some (ErrExternal 5), d) else (None, b))"

text \<open>
  Two \<^verbatim>\<open>pre\<close> callbacks: one returns an error, the other blanks the version string
  of the clone, so that \<open>ex_SaveMeta\<close> fails.
\<close>

definition ex_pre_fail :: "store \<Rightarrow> smapX \<Rightarrow> error option \<times> store \<times> smapX" where
  "ex_pre_fail s m = (Some (ErrExternal 1), s, m)"

definition ex_pre_blank :: "store \<Rightarrow> smapX \<Rightarrow> error option \<times> store \<times> smapX" where
  "ex_pre_blank s m = (None, s, m\<lparr>vstr := []\<rparr>)"

text \<open>An order of the keys of the proxy map of \<open>ex_smap\<close>.\<close>

definition ex_keys :: "string list" where
  "ex_keys = [''p3'', ''p1'', ''p5'', ''p2'', ''p4'']"

text \<open>
  The same cluster with only the primary \<open>p1\<close> in the IC and \<open>p3\<close> not electable.
\<close>

definition ex_store_b :: store where
  "ex_store_b =
     ex_store\<lparr>nodes := (nodes ex_store)
        (1 := mk_node ''p2'' ''proxy'' 0 ''10.0.0.2'',
         2 := mk_node ''p3'' ''proxy'' 1 ''10.0.0.3'',
         3 := mk_node ''p4'' ''proxy'' 0 ''10.0.0.4'',
         4 := mk_node ''p5'' ''proxy'' 0 ''10.0.0.5'')\<rparr>"

section \<open>Properties\<close>

lemmas ex_defs = ex_store_def ex_smap_def ex_smap2_def mk_node_def bad_store_def uuid_len9_def
  same_net_def ex_owner_def ex_encode_def ex_SaveMeta_def

lemmas acc_defs = GetProxy_def GetTarget_def GetNode_def pmap_def tmap_def IsProxy_def
  IsTarget_def isPresent_def

subsection \<open>validateUUID\<close>

text \<open>
  C9. \<^verbatim>\<open>validateUUID\<close> returns an error exactly when both snapshots are not nil, the
  version of the new one is not zero, both UUIDs are valid and they differ; the error
  is then the cluster-integrity error \<^verbatim>\<open>errSmapUUIDDiffer\<close>, and in every other case
  the result is nil.
\<close>

theorem validateUUID_error_iff:
  "validateUUID validUUID mo si newSmap caller cieNum =
     (if (\<exists>m n. mo = Some m \<and> newSmap = Some n \<and> Version n \<noteq> 0
               \<and> validUUID (UUID m) \<and> validUUID (UUID n) \<and> UUID m \<noteq> UUID n)
      then Some (ErrSmapUUIDDiffer cieNum (if caller = [] then ''???'' else caller))
      else None)"
  by (auto simp: validateUUID_def split: option.splits)

theorem validateUUID_error_iff_witness:
  "validateUUID uuid_len9 (Some ex_smap) (Some 0) (Some (ex_smap\<lparr>UUID := ''cluster-B''\<rparr>)) [] 50
     = Some (ErrSmapUUIDDiffer 50 ''???'')
   \<and> validateUUID uuid_len9 (Some (ex_smap\<lparr>UUID := []\<rparr>)) (Some 0) (Some ex_smap) ''p1'' 50 = None"
  using validateUUID_error_iff [of uuid_len9 "Some ex_smap" "Some 0"
          "Some (ex_smap\<lparr>UUID := ''cluster-B''\<rparr>)" "[]" 50]
        validateUUID_error_iff [of uuid_len9 "Some (ex_smap\<lparr>UUID := []\<rparr>)" "Some 0"
          "Some ex_smap" "''p1''" 50]
  by (simp add: ex_defs)

subsection \<open>validate\<close>

text \<open>
  C5, as the code has it. \<^verbatim>\<open>validate\<close> returns nil exactly when the snapshot is not
  nil, its version is not zero, its primary is not nil, is present in the map of its
  own role and has a non-empty id, and the UUID is valid. It looks neither for an id
  that is both a target and a proxy nor at the number of IC members.
\<close>

theorem validate_nil_iff:
  "(validate validUUID s mo = Inr None) =
   (\<exists>m p. mo = Some m \<and> Version m \<noteq> 0 \<and> Primary m = Some p \<and> isPresent s m p
      \<and> DaemonID (nodes s p) \<noteq> [] \<and> validUUID (UUID m))"
  by (auto simp: validate_def split: option.splits)

theorem validate_nil_iff_witness:
  "validate uuid_len9 ex_store (Some ex_smap) = Inr None
   \<and> validate uuid_len9 ex_store (Some (ex_smap\<lparr>Version := 0\<rparr>)) \<noteq> Inr None"
  using validate_nil_iff [of uuid_len9 ex_store "Some ex_smap"]
        validate_nil_iff [of uuid_len9 ex_store "Some (ex_smap\<lparr>Version := 0\<rparr>)"]
  by (simp add: ex_defs acc_defs)

text \<open>
  The claim as stated fails: in \<open>bad_store\<close> the id \<open>p2\<close> is a key of both maps and
  five proxies are in the IC, and \<^verbatim>\<open>validate\<close> returns nil.
\<close>

theorem validate_ignores_collision_and_IC:
  "validate uuid_len9 bad_store (Some ex_smap) = Inr None
   \<and> GetTarget bad_store ex_smap ''p2'' = Some 7
   \<and> GetProxy bad_store ex_smap ''p2'' = Some 1
   \<and> ICCount bad_store ex_smap = 5"
  by (simp add: validate_def ex_defs acc_defs ICCount_def isIC_def IsSet_def SnodeIC_def)

subsection \<open>putNode\<close>

text \<open>
  C4, as the code has it. When the id of \<open>nsi\<close> is already in the map of its own role
  (and not in the other map, where \<^verbatim>\<open>addProxy\<close> or \<^verbatim>\<open>addTarget\<close> would be fatal),
  \<^verbatim>\<open>putNode\<close> sets the flags of \<open>nsi\<close>, replaces the old entry with \<open>nsi\<close>, leaves
  the other entries as they are, reports \<^verbatim>\<open>exists = true\<close> and increments the version
  twice: once in the delete and once in the add.
\<close>

theorem putNode_replace:
  assumes sid: "sid = DaemonID (nodes s nsi)"
    and role: "(IsProxy (nodes s nsi) \<and> GetProxy s m sid \<noteq> None \<and> GetTarget s m sid = None)
             \<or> (IsTarget (nodes s nsi) \<and> GetTarget s m sid \<noteq> None \<and> GetProxy s m sid = None)"
  shows "\<exists>s' m'. putNode s m nsi flags = Inr (True, s', m')
           \<and> Version m' = Version m + 2
           \<and> m' = m\<lparr>Version := Version m'\<rparr>
           \<and> nodes s' = (nodes s)(nsi := (nodes s nsi)\<lparr>Flags := flags\<rparr>)
           \<and> (if IsProxy (nodes s nsi)
              then GetProxy s' m' = (GetProxy s m)(sid \<mapsto> nsi) \<and> GetTarget s' m' = GetTarget s m
              else GetTarget s' m' = (GetTarget s m)(sid \<mapsto> nsi) \<and> GetProxy s' m' = GetProxy s m)"
proof -
  have ne: "Tmap m \<noteq> Pmap m"
    using role by (auto simp: GetProxy_def GetTarget_def pmap_def tmap_def)
  from role show ?thesis
  proof
    assume p: "IsProxy (nodes s nsi) \<and> GetProxy s m sid \<noteq> None \<and> GetTarget s m sid = None"
    then show ?thesis using ne sid
      by (auto simp: putNode_def Let_def set_node_flags_def IsProxy_def GetProxy_def GetTarget_def
            GetNode_def pmap_def tmap_def delProxy_def addProxy_def map_delete_def map_put_def
            delete_conv update_conv' fun_eq_iff split: option.splits)
  next
    assume t: "IsTarget (nodes s nsi) \<and> GetTarget s m sid \<noteq> None \<and> GetProxy s m sid = None"
    then have np: "\<not> IsProxy (nodes s nsi)" by (auto simp: IsProxy_def IsTarget_def)
    show ?thesis using t np ne sid
      by (auto simp: putNode_def Let_def set_node_flags_def IsProxy_def IsTarget_def GetProxy_def
            GetTarget_def GetNode_def pmap_def tmap_def delTarget_def addTarget_def map_delete_def
            map_put_def delete_conv update_conv' fun_eq_iff split: option.splits)
  qed
qed

theorem putNode_replace_witness:
  "IsProxy (nodes ex_store 6) \<and> GetProxy ex_store ex_smap ''p2'' = Some 1
   \<and> GetTarget ex_store ex_smap ''p2'' = None
   \<and> (\<exists>s' m'. putNode ex_store ex_smap 6 1 = Inr (True, s', m') \<and> Version m' = 12
         \<and> GetProxy s' m' ''p2'' = Some 6 \<and> Flags (nodes s' 6) = 1)"
proof -
  have h: "IsProxy (nodes ex_store 6) \<and> GetProxy ex_store ex_smap ''p2'' = Some 1
           \<and> GetTarget ex_store ex_smap ''p2'' = None"
    by (simp add: ex_defs acc_defs)
  have i: "''p2'' = DaemonID (nodes ex_store 6)"
    by (simp add: ex_defs)
  from h have r: "(IsProxy (nodes ex_store 6) \<and> GetProxy ex_store ex_smap ''p2'' \<noteq> None
                    \<and> GetTarget ex_store ex_smap ''p2'' = None)
                \<or> (IsTarget (nodes ex_store 6) \<and> GetTarget ex_store ex_smap ''p2'' \<noteq> None
                    \<and> GetProxy ex_store ex_smap ''p2'' = None)"
    by simp
  from putNode_replace [OF i r, of 1] obtain s' m' where
    "putNode ex_store ex_smap 6 1 = Inr (True, s', m')" "Version m' = Version ex_smap + 2"
    "nodes s' = (nodes ex_store)(6 := (nodes ex_store 6)\<lparr>Flags := 1\<rparr>)"
    "GetProxy s' m' = (GetProxy ex_store ex_smap)(''p2'' \<mapsto> 6)"
    using h by auto
  then show ?thesis using h by (auto simp: ex_smap_def)
qed

text \<open>
  The claim as stated fails: proxy \<open>p2\<close> joins again at version 10, and the version
  afterwards is 12, not 11.
\<close>

theorem putNode_replace_increments_twice:
  "Version ex_smap = 10 \<and> putNode_obs ex_store ex_smap 6 0 = Some (True, 12)"
  by (simp add: putNode_obs_def putNode_def ex_defs set_node_flags_def acc_defs delProxy_def
        map_delete_def addProxy_def map_put_def Let_def)

subsection \<open>merge\<close>

lemma hdn_False:
  "handleDuplicateNode dup s m nsi False = Inr (e, s', m') \<Longrightarrow> s' = s \<and> m' = m"
  by (auto simp: handleDuplicateNode_def split: option.splits)

lemma merge_T_False_dst:
  "merge_T dup False m ks s dst added = Inr (a, e, s', dst') \<Longrightarrow> dst' = dst"
proof (induction ks arbitrary: s added)
  case Nil
  then show ?case by simp
next
  case (Cons k ks)
  show ?case
  proof (cases "map_of (tmap s m) k")
    case None
    with Cons show ?thesis by simp
  next
    case (Some si)
    show ?thesis
    proof (cases "handleDuplicateNode dup s dst si False")
      case (Inl f)
      with Cons.prems Some show ?thesis by simp
    next
      case (Inr x)
      obtain e1 s1 d1 where x: "x = (e1, s1, d1)" by (cases x)
      with Inr hdn_False have eq: "s1 = s" "d1 = dst" by blast+
      show ?thesis
      proof (cases e1)
        case None
        with Cons.prems Some Inr x eq Cons.IH show ?thesis
          by (auto split: if_splits)
      next
        case (Some e')
        with Cons.prems \<open>map_of (tmap s m) k = Some si\<close> Inr x eq show ?thesis
          by simp
      qed
    qed
  qed
qed

lemma merge_P_False_dst:
  "merge_P dup False m ks s dst added = Inr (a, e, s', dst') \<Longrightarrow> dst' = dst"
proof (induction ks arbitrary: s added)
  case Nil
  then show ?case by simp
next
  case (Cons k ks)
  show ?case
  proof (cases "map_of (pmap s m) k")
    case None
    with Cons show ?thesis by simp
  next
    case (Some si)
    show ?thesis
    proof (cases "handleDuplicateNode dup s dst si False")
      case (Inl f)
      with Cons.prems Some show ?thesis by simp
    next
      case (Inr x)
      obtain e1 s1 d1 where x: "x = (e1, s1, d1)" by (cases x)
      with Inr hdn_False have eq: "s1 = s" "d1 = dst" by blast+
      show ?thesis
      proof (cases e1)
        case None
        with Cons.prems Some Inr x eq Cons.IH show ?thesis
          by (auto split: if_splits)
      next
        case (Some e')
        with Cons.prems \<open>map_of (pmap s m) k = Some si\<close> Inr x eq show ?thesis
          by simp
      qed
    qed
  qed
qed

lemma set_update_subset: "set (AList.update k v al) \<subseteq> insert (k, v) (set al)"
  by (induction al) auto

lemma snd_update_subset: "snd ` set (AList.update k v al) \<subseteq> insert v (snd ` set al)"
proof
  fix x assume "x \<in> snd ` set (AList.update k v al)"
  then obtain y where y: "y \<in> set (AList.update k v al)" "x = snd y" by blast
  with set_update_subset [of k v al] have "y = (k, v) \<or> y \<in> set al" by blast
  with y show "x \<in> insert v (snd ` set al)" by auto
qed

lemma map_of_snd_mem: "map_of al k = Some v \<Longrightarrow> v \<in> snd ` set al"
proof -
  assume "map_of al k = Some v"
  then have "(k, v) \<in> set al" by (rule map_of_SomeD)
  then show ?thesis by force
qed

lemma IsDuplicate_conflict_free:
  assumes "conflict_free dup s R" "nsi \<in> R" "node_addrs s m \<subseteq> R"
  shows "IsDuplicate dup s m nsi = None"
proof -
  have "find (\<lambda>(k, a). DaemonID (nodes s a) \<noteq> DaemonID (nodes s nsi)
                          \<and> dup (nodes s nsi) (nodes s a)) (tmap s m @ pmap s m) = None"
    unfolding find_None_iff
  proof (intro notI, elim exE conjE)
    fix x assume xin: "x \<in> set (tmap s m @ pmap s m)"
      and xc: "case x of (k, a) \<Rightarrow> DaemonID (nodes s a) \<noteq> DaemonID (nodes s nsi) \<and> dup (nodes s nsi) (nodes s a)"
    obtain k a where xe: "x = (k, a)" by (cases x)
    from xin xe have x2: "(k, a) \<in> set (tmap s m) \<union> set (pmap s m)" by simp
    from xc xe have d: "DaemonID (nodes s a) \<noteq> DaemonID (nodes s nsi)" "dup (nodes s nsi) (nodes s a)"
      by simp_all
    from x2 have "a \<in> node_addrs s m" by (force simp: node_addrs_def)
    with assms(3) have "a \<in> R" by blast
    with assms(1,2) d show False unfolding conflict_free_def by metis
  qed
  then show ?thesis by (simp add: IsDuplicate_def)
qed

lemma hdn_conflict_free:
  assumes "conflict_free dup s R" "nsi \<in> R" "node_addrs s m \<subseteq> R"
  shows "handleDuplicateNode dup s m nsi del = Inr (None, s, m)"
  using IsDuplicate_conflict_free [OF assms] by (simp add: handleDuplicateNode_def)



lemma restrict_add_skip:
  assumes "src k = None \<or> d k \<noteq> None \<or> k \<in> P"
  shows "(src |` (insert k K - P)) ++ d = (src |` (K - P)) ++ d"
  using assms by (auto simp: restrict_map_def fun_eq_iff map_add_def split: option.splits)

lemma restrict_add_take:
  assumes "src k = Some v" "d k = None" "k \<notin> P"
  shows "(src |` (K - P)) ++ (d(k \<mapsto> v)) = (src |` (insert k K - P)) ++ d"
  using assms by (auto simp: restrict_map_def fun_eq_iff map_add_def split: option.splits)

lemma merge_T_conflict_free:
  assumes "Tmap m \<noteq> Tmap dst" "Pmap dst \<noteq> Tmap dst"
    and "conflict_free dup s R"
    and "snd ` set (tmap s m) \<subseteq> R" "node_addrs s dst \<subseteq> R"
  shows "\<exists>added' s'. merge_T dup ov m ks s dst added = Inr (added', None, s', dst)
           \<and> nodes s' = nodes s \<and> nnext s' = nnext s \<and> mnext s' = mnext s
           \<and> (\<forall>a. a \<noteq> Tmap dst \<longrightarrow> maps s' a = maps s a)
           \<and> map_of (tmap s' dst) =
               (map_of (tmap s m) |` (set ks - dom (map_of (pmap s dst)))) ++ map_of (tmap s dst)
           \<and> node_addrs s' dst \<subseteq> R"
  using assms
proof (induction ks arbitrary: s added)
  case Nil
  then show ?case by simp
next
  case (Cons k ks)
  let ?P = "dom (map_of (pmap s dst))"
  show ?case
  proof (cases "map_of (tmap s m) k = None \<or> map_of (tmap s dst) k \<noteq> None \<or> k \<in> ?P")
    case True
    have step: "merge_T dup ov m (k # ks) s dst added = merge_T dup ov m ks s dst added"
    proof (cases "map_of (tmap s m) k")
      case None
      then show ?thesis by simp
    next
      case (Some si)
      have siR: "si \<in> R" using Some Cons.prems(4) map_of_snd_mem [of "tmap s m" k si] by blast
      have h: "handleDuplicateNode dup s dst si ov = Inr (None, s, dst)"
        using hdn_conflict_free [OF Cons.prems(3) siR Cons.prems(5)] .
      from True Some have "\<not> (map_of (tmap s dst) k = None \<and> map_of (pmap s dst) k = None)"
        by auto
      with Some h show ?thesis by auto
    qed
    have e: "(map_of (tmap s m) |` (set (k # ks) - ?P)) ++ map_of (tmap s dst) =
             (map_of (tmap s m) |` (set ks - ?P)) ++ map_of (tmap s dst)"
      using restrict_add_skip [of "map_of (tmap s m)" k "map_of (tmap s dst)" ?P "set ks"] True
      by simp
    show ?thesis unfolding step e by (rule Cons.IH [OF Cons.prems])
  next
    case False
    then obtain si where Some: "map_of (tmap s m) k = Some si"
      and dk: "map_of (tmap s dst) k = None" and pk: "k \<notin> ?P" by auto
    have siR: "si \<in> R" using Some Cons.prems(4) map_of_snd_mem [of "tmap s m" k si] by blast
    have h: "handleDuplicateNode dup s dst si ov = Inr (None, s, dst)"
      using hdn_conflict_free [OF Cons.prems(3) siR Cons.prems(5)] .
    define s1 where "s1 = map_put s (Tmap dst) k si"
    have t1: "tmap s1 m = tmap s m" using Cons.prems(1) by (simp add: s1_def tmap_def map_put_def)
    have p1: "pmap s1 dst = pmap s dst" using Cons.prems(2) by (simp add: s1_def pmap_def map_put_def)
    have d1: "tmap s1 dst = AList.update k si (tmap s dst)" by (simp add: s1_def tmap_def map_put_def)
    have n1: "nodes s1 = nodes s" "nnext s1 = nnext s" "mnext s1 = mnext s"
      by (simp_all add: s1_def map_put_def)
    have m1: "\<forall>a. a \<noteq> Tmap dst \<longrightarrow> maps s1 a = maps s a" by (simp add: s1_def map_put_def)
    have cf: "conflict_free dup s1 R" using Cons.prems(3) n1 by (simp add: conflict_free_def)
    have a1: "snd ` set (tmap s1 m) \<subseteq> R" using t1 Cons.prems(4) by simp
    have a2: "node_addrs s1 dst \<subseteq> R"
    proof -
      have "snd ` set (tmap s1 dst) \<subseteq> insert si (snd ` set (tmap s dst))"
        unfolding d1 by (rule snd_update_subset)
      then show ?thesis using Cons.prems(5) siR unfolding node_addrs_def p1 by blast
    qed
    have step: "merge_T dup ov m (k # ks) s dst added = merge_T dup ov m ks s1 dst (added + 1)"
      using Some h dk pk by (simp add: s1_def domIff)
    have e: "(map_of (tmap s1 m) |` (set ks - dom (map_of (pmap s1 dst)))) ++ map_of (tmap s1 dst) =
             (map_of (tmap s m) |` (set (k # ks) - ?P)) ++ map_of (tmap s dst)"
      unfolding t1 p1 d1 update_conv'
      using restrict_add_take [of "map_of (tmap s m)" k si "map_of (tmap s dst)" ?P "set ks"]
        Some dk pk by simp
    from Cons.IH [OF Cons.prems(1,2) cf a1 a2, of "added + 1"]
    show ?thesis unfolding step e n1 using m1 by auto
  qed
qed


lemma merge_P_conflict_free:
  assumes "Pmap m \<noteq> Pmap dst" "Tmap dst \<noteq> Pmap dst"
    and "conflict_free dup s R"
    and "snd ` set (pmap s m) \<subseteq> R" "node_addrs s dst \<subseteq> R"
  shows "\<exists>added' s'. merge_P dup ov m ks s dst added = Inr (added', None, s', dst)
           \<and> nodes s' = nodes s \<and> nnext s' = nnext s \<and> mnext s' = mnext s
           \<and> (\<forall>a. a \<noteq> Pmap dst \<longrightarrow> maps s' a = maps s a)
           \<and> map_of (pmap s' dst) =
               (map_of (pmap s m) |` (set ks - dom (map_of (tmap s dst)))) ++ map_of (pmap s dst)
           \<and> node_addrs s' dst \<subseteq> R"
  using assms
proof (induction ks arbitrary: s added)
  case Nil
  then show ?case by simp
next
  case (Cons k ks)
  let ?P = "dom (map_of (tmap s dst))"
  show ?case
  proof (cases "map_of (pmap s m) k = None \<or> map_of (pmap s dst) k \<noteq> None \<or> k \<in> ?P")
    case True
    have step: "merge_P dup ov m (k # ks) s dst added = merge_P dup ov m ks s dst added"
    proof (cases "map_of (pmap s m) k")
      case None
      then show ?thesis by simp
    next
      case (Some si)
      have siR: "si \<in> R" using Some Cons.prems(4) map_of_snd_mem [of "pmap s m" k si] by blast
      have h: "handleDuplicateNode dup s dst si ov = Inr (None, s, dst)"
        using hdn_conflict_free [OF Cons.prems(3) siR Cons.prems(5)] .
      from True Some have "\<not> (map_of (pmap s dst) k = None \<and> map_of (tmap s dst) k = None)"
        by auto
      with Some h show ?thesis by auto
    qed
    have e: "(map_of (pmap s m) |` (set (k # ks) - ?P)) ++ map_of (pmap s dst) =
             (map_of (pmap s m) |` (set ks - ?P)) ++ map_of (pmap s dst)"
      using restrict_add_skip [of "map_of (pmap s m)" k "map_of (pmap s dst)" ?P "set ks"] True
      by simp
    show ?thesis unfolding step e by (rule Cons.IH [OF Cons.prems])
  next
    case False
    then obtain si where Some: "map_of (pmap s m) k = Some si"
      and dk: "map_of (pmap s dst) k = None" and pk: "k \<notin> ?P" by auto
    have siR: "si \<in> R" using Some Cons.prems(4) map_of_snd_mem [of "pmap s m" k si] by blast
    have h: "handleDuplicateNode dup s dst si ov = Inr (None, s, dst)"
      using hdn_conflict_free [OF Cons.prems(3) siR Cons.prems(5)] .
    define s1 where "s1 = map_put s (Pmap dst) k si"
    have p1: "pmap s1 m = pmap s m" using Cons.prems(1) by (simp add: s1_def pmap_def map_put_def)
    have t1: "tmap s1 dst = tmap s dst" using Cons.prems(2) by (simp add: s1_def tmap_def map_put_def)
    have d1: "pmap s1 dst = AList.update k si (pmap s dst)" by (simp add: s1_def pmap_def map_put_def)
    have n1: "nodes s1 = nodes s" "nnext s1 = nnext s" "mnext s1 = mnext s"
      by (simp_all add: s1_def map_put_def)
    have m1: "\<forall>a. a \<noteq> Pmap dst \<longrightarrow> maps s1 a = maps s a" by (simp add: s1_def map_put_def)
    have cf: "conflict_free dup s1 R" using Cons.prems(3) n1 by (simp add: conflict_free_def)
    have a1: "snd ` set (pmap s1 m) \<subseteq> R" using p1 Cons.prems(4) by simp
    have a2: "node_addrs s1 dst \<subseteq> R"
    proof -
      have "snd ` set (pmap s1 dst) \<subseteq> insert si (snd ` set (pmap s dst))"
        unfolding d1 by (rule snd_update_subset)
      then show ?thesis using Cons.prems(5) siR unfolding node_addrs_def t1 by blast
    qed
    have step: "merge_P dup ov m (k # ks) s dst added = merge_P dup ov m ks s1 dst (added + 1)"
      using Some h dk pk by (simp add: s1_def domIff)
    have e: "(map_of (pmap s1 m) |` (set ks - dom (map_of (tmap s1 dst)))) ++ map_of (pmap s1 dst) =
             (map_of (pmap s m) |` (set (k # ks) - ?P)) ++ map_of (pmap s dst)"
      unfolding p1 t1 d1 update_conv'
      using restrict_add_take [of "map_of (pmap s m)" k si "map_of (pmap s dst)" ?P "set ks"]
        Some dk pk by simp
    from Cons.IH [OF Cons.prems(1,2) cf a1 a2, of "added + 1"]
    show ?thesis unfolding step e n1 using m1 by auto
  qed
qed


lemma merge_conflict_free:
  assumes d: "Tmap m \<noteq> Tmap dst" "Pmap dst \<noteq> Tmap dst" "Pmap m \<noteq> Pmap dst" "Pmap m \<noteq> Tmap dst"
    and cf: "conflict_free dup s R"
    and am: "node_addrs s m \<subseteq> R" and ad: "node_addrs s dst \<subseteq> R"
  shows "\<exists>added s' dst'. merge dup kt kp s m dst ov = Inr (added, None, s', dst')
           \<and> Version dst' = Version dst \<and> Tmap dst' = Tmap dst \<and> Pmap dst' = Pmap dst
           \<and> Primary dst' = Primary dst
           \<and> nodes s' = nodes s \<and> nnext s' = nnext s \<and> mnext s' = mnext s
           \<and> (\<forall>a. a \<noteq> Tmap dst \<and> a \<noteq> Pmap dst \<longrightarrow> maps s' a = maps s a)
           \<and> map_of (tmap s' dst') =
               (map_of (tmap s m) |` (set kt - dom (map_of (pmap s dst)))) ++ map_of (tmap s dst)
           \<and> map_of (pmap s' dst') =
               (map_of (pmap s m) |` (set kp - dom (map_of (tmap s' dst')))) ++ map_of (pmap s dst)"
proof -
  have amT: "snd ` set (tmap s m) \<subseteq> R" and amP: "snd ` set (pmap s m) \<subseteq> R"
    using am by (auto simp: node_addrs_def)
  from merge_T_conflict_free [OF d(1,2) cf amT ad, of ov kt 0] obtain a1 s1 where
    T: "merge_T dup ov m kt s dst 0 = Inr (a1, None, s1, dst)"
       "nodes s1 = nodes s" "nnext s1 = nnext s" "mnext s1 = mnext s"
       "\<forall>a. a \<noteq> Tmap dst \<longrightarrow> maps s1 a = maps s a"
       "map_of (tmap s1 dst) =
          (map_of (tmap s m) |` (set kt - dom (map_of (pmap s dst)))) ++ map_of (tmap s dst)"
       "node_addrs s1 dst \<subseteq> R" by blast
  have cf1: "conflict_free dup s1 R" using cf T(2) by (simp add: conflict_free_def)
  have pm1: "pmap s1 m = pmap s m" using T(5) d(4) by (simp add: pmap_def)
  have pd1: "pmap s1 dst = pmap s dst" using T(5) d(2) by (simp add: pmap_def)
  have amP1: "snd ` set (pmap s1 m) \<subseteq> R" using amP pm1 by simp
  from merge_P_conflict_free [OF d(3) d(2) [symmetric] cf1 amP1 T(7), of ov kp a1] obtain a2 s2 where
    P: "merge_P dup ov m kp s1 dst a1 = Inr (a2, None, s2, dst)"
       "nodes s2 = nodes s1" "nnext s2 = nnext s1" "mnext s2 = mnext s1"
       "\<forall>a. a \<noteq> Pmap dst \<longrightarrow> maps s2 a = maps s1 a"
       "map_of (pmap s2 dst) =
          (map_of (pmap s1 m) |` (set kp - dom (map_of (tmap s1 dst)))) ++ map_of (pmap s1 dst)"
    by blast
  have td2: "tmap s2 dst = tmap s1 dst" using P(5) d(2) by (simp add: tmap_def)
  define dst' where "dst' = (if UUID m \<noteq> [] \<and> UUID dst = []
                    then dst\<lparr>UUID := UUID m, CreationTime := CreationTime m\<rparr> else dst)"
  have r: "merge dup kt kp s m dst ov = Inr (a2, None, s2, dst')"
    using T(1) P(1) by (simp add: merge_def dst'_def)
  have f: "Version dst' = Version dst" "Tmap dst' = Tmap dst" "Pmap dst' = Pmap dst"
    "Primary dst' = Primary dst"
    by (simp_all add: dst'_def)
  have tp: "tmap s2 dst' = tmap s1 dst" "pmap s2 dst' = pmap s2 dst"
    using f td2 by (simp_all add: tmap_def pmap_def)
  have tfin: "map_of (tmap s2 dst') =
      (map_of (tmap s m) |` (set kt - dom (map_of (pmap s dst)))) ++ map_of (tmap s dst)"
    using tp(1) T(6) by simp
  have pfin: "map_of (pmap s2 dst') =
      (map_of (pmap s m) |` (set kp - dom (map_of (tmap s2 dst')))) ++ map_of (pmap s dst)"
    using P(6) unfolding tp pm1 pd1 .
  have mfin: "\<forall>a. a \<noteq> Tmap dst \<and> a \<noteq> Pmap dst \<longrightarrow> maps s2 a = maps s a"
    using T(5) P(5) by simp
  have nfin: "nodes s2 = nodes s" "nnext s2 = nnext s" "mnext s2 = mnext s"
    using T(2-4) P(2-4) by simp_all
  from r f nfin mfin tfin pfin show ?thesis by blast
qed


lemma restrict_map_dom_subset: "dom f \<subseteq> S \<Longrightarrow> f |` S = f"
proof (rule ext)
  fix x assume a: "dom f \<subseteq> S"
  show "(f |` S) x = f x"
  proof (cases "x \<in> S")
    case True
    then show ?thesis by simp
  next
    case False
    with a have "x \<notin> dom f" by blast
    then have "f x = None" by (simp add: domIff)
    with False show ?thesis by simp
  qed
qed

lemma restrict_diff_add:
  assumes "dom p \<inter> dom td = {}"
  shows "p |` (dom p - dom (tm ++ td)) = p |` (- dom tm)"
proof (rule ext)
  fix x
  show "(p |` (dom p - dom (tm ++ td))) x = (p |` (- dom tm)) x"
  proof (cases "p x")
    case None
    then show ?thesis by (simp add: restrict_map_def)
  next
    case (Some y)
    then have "x \<in> dom p" by (simp add: domIff)
    with assms have "x \<notin> dom td" by blast
    then show ?thesis using Some by (auto simp: restrict_map_def domIff)
  qed
qed

lemma GetTarget_fun: "GetTarget s m = map_of (tmap s m)"
  by (simp add: fun_eq_iff GetTarget_def)

lemma GetProxy_fun: "GetProxy s m = map_of (pmap s m)"
  by (simp add: fun_eq_iff GetProxy_def)

lemma ids_dom: "ids s m = dom (GetTarget s m) \<union> dom (GetProxy s m)"
  by (simp add: ids_def GetTarget_fun GetProxy_fun dom_map_of_conv_image_fst)

lemma merge_disjoint_result:
  assumes dj: "ids s m \<inter> ids s dst = {}"
    and cf: "conflict_free dup s R" "node_addrs s m \<subseteq> R" "node_addrs s dst \<subseteq> R"
    and objs: "distinct [Tmap m, Pmap m, Tmap dst, Pmap dst]"
    and orders: "is_order kt (tmap s m)" "is_order kp (pmap s m)"
  shows "\<exists>added s' dst'. merge dup kt kp s m dst ov = Inr (added, None, s', dst')
           \<and> Version dst' = Version dst
           \<and> GetTarget s' dst' = GetTarget s m ++ GetTarget s dst
           \<and> GetProxy s' dst' = (GetProxy s m |` (- dom (GetTarget s m))) ++ GetProxy s dst"
proof -
  have d: "Tmap m \<noteq> Tmap dst" "Pmap dst \<noteq> Tmap dst" "Pmap m \<noteq> Pmap dst" "Pmap m \<noteq> Tmap dst"
    using objs by auto
  from merge_conflict_free [OF d cf, of kt kp ov] obtain added s' dst' where
    r: "merge dup kt kp s m dst ov = Inr (added, None, s', dst')" "Version dst' = Version dst"
    and t: "map_of (tmap s' dst') =
               (map_of (tmap s m) |` (set kt - dom (map_of (pmap s dst)))) ++ map_of (tmap s dst)"
    and p: "map_of (pmap s' dst') =
               (map_of (pmap s m) |` (set kp - dom (map_of (tmap s' dst')))) ++ map_of (pmap s dst)"
    by blast
  have kt: "set kt = dom (GetTarget s m)" and kp: "set kp = dom (GetProxy s m)"
    using orders by (simp_all add: is_order_def GetTarget_fun GetProxy_fun dom_map_of_conv_image_fst)
  have dj': "dom (GetTarget s m) \<inter> dom (GetProxy s dst) = {}"
    "dom (GetProxy s m) \<inter> dom (GetTarget s dst) = {}"
    using dj unfolding ids_dom by blast+
  have t': "GetTarget s' dst' = (GetTarget s m |` (dom (GetTarget s m) - dom (GetProxy s dst))) ++ GetTarget s dst"
    using t unfolding kt by (simp add: GetTarget_fun GetProxy_fun)
  have "dom (GetTarget s m) - dom (GetProxy s dst) = dom (GetTarget s m)" using dj'(1) by blast
  then have t2: "GetTarget s' dst' = GetTarget s m ++ GetTarget s dst"
    using t' by (simp add: restrict_map_dom_subset)
  have p': "GetProxy s' dst' = (GetProxy s m |` (dom (GetProxy s m) - dom (GetTarget s' dst'))) ++ GetProxy s dst"
    using p unfolding kp by (simp add: GetTarget_fun GetProxy_fun)
  have "GetProxy s m |` (dom (GetProxy s m) - dom (GetTarget s' dst')) = GetProxy s m |` (- dom (GetTarget s m))"
    unfolding t2 using dj'(2) by (rule restrict_diff_add)
  with p' have p2: "GetProxy s' dst' = (GetProxy s m |` (- dom (GetTarget s m))) ++ GetProxy s dst"
    by simp
  from r t2 p2 show ?thesis by blast
qed


text \<open>
  C8. Two snapshots \<open>A\<close> and \<open>B\<close> of one store with disjoint node ids, no
  duplicate-URL/IP conflict between any two of their nodes, and four different map
  objects. Whatever the orders of the loops, merging \<open>A\<close> into \<open>B\<close> and merging \<open>B\<close>
  into \<open>A\<close> without override both succeed and give the same set of member ids, the
  ids of both; when neither snapshot has an id that is both a target and a proxy, the
  two results have the same targets and the same proxies.
\<close>

theorem merge_commutes:
  assumes dj: "ids s A \<inter> ids s B = {}"
    and cf: "conflict_free dup s (node_addrs s A \<union> node_addrs s B)"
    and objs: "distinct [Tmap A, Pmap A, Tmap B, Pmap B]"
    and orders: "is_order kt (tmap s A)" "is_order kp (pmap s A)"
                "is_order kt' (tmap s B)" "is_order kp' (pmap s B)"
  shows "\<exists>n1 s1 B' n2 s2 A'.
           merge dup kt kp s A B False = Inr (n1, None, s1, B')
         \<and> merge dup kt' kp' s B A False = Inr (n2, None, s2, A')
         \<and> ids s1 B' = ids s A \<union> ids s B
         \<and> ids s2 A' = ids s A \<union> ids s B
         \<and> (dom (GetTarget s A) \<inter> dom (GetProxy s A) = {}
              \<and> dom (GetTarget s B) \<inter> dom (GetProxy s B) = {}
            \<longrightarrow> GetTarget s1 B' = GetTarget s2 A' \<and> GetProxy s1 B' = GetProxy s2 A')"
proof -
  let ?R = "node_addrs s A \<union> node_addrs s B"
  have o1: "distinct [Tmap B, Pmap B, Tmap A, Pmap A]" using objs by auto
  have dj2: "ids s B \<inter> ids s A = {}" using dj by blast
  from merge_disjoint_result [OF dj cf _ _ objs orders(1,2), of False] obtain n1 s1 B' where
    1: "merge dup kt kp s A B False = Inr (n1, None, s1, B')"
       "GetTarget s1 B' = GetTarget s A ++ GetTarget s B"
       "GetProxy s1 B' = (GetProxy s A |` (- dom (GetTarget s A))) ++ GetProxy s B"
    by auto
  from merge_disjoint_result [OF dj2 cf _ _ o1 orders(3,4), of False] obtain n2 s2 A' where
    2: "merge dup kt' kp' s B A False = Inr (n2, None, s2, A')"
       "GetTarget s2 A' = GetTarget s B ++ GetTarget s A"
       "GetProxy s2 A' = (GetProxy s B |` (- dom (GetTarget s B))) ++ GetProxy s A"
    by auto
  have i1: "ids s1 B' = ids s A \<union> ids s B"
    unfolding ids_dom 1(2,3) by auto
  have i2: "ids s2 A' = ids s A \<union> ids s B"
    unfolding ids_dom 2(2,3) by auto
  have dTT: "dom (GetTarget s A) \<inter> dom (GetTarget s B) = {}"
    and dPP: "dom (GetProxy s A) \<inter> dom (GetProxy s B) = {}"
    using dj unfolding ids_dom by blast+
  have tt: "GetTarget s1 B' = GetTarget s2 A'"
    unfolding 1(2) 2(2) using dTT by (rule map_add_comm)
  have pp: "dom (GetTarget s A) \<inter> dom (GetProxy s A) = {}
              \<and> dom (GetTarget s B) \<inter> dom (GetProxy s B) = {}
            \<Longrightarrow> GetProxy s1 B' = GetProxy s2 A'"
  proof -
    assume a: "dom (GetTarget s A) \<inter> dom (GetProxy s A) = {}
              \<and> dom (GetTarget s B) \<inter> dom (GetProxy s B) = {}"
    then have e: "GetProxy s A |` (- dom (GetTarget s A)) = GetProxy s A"
      "GetProxy s B |` (- dom (GetTarget s B)) = GetProxy s B"
      by (auto intro!: restrict_map_dom_subset)
    have "GetProxy s A ++ GetProxy s B = GetProxy s B ++ GetProxy s A"
      using dPP by (rule map_add_comm)
    then show ?thesis unfolding 1(3) 2(3) e .
  qed
  from 1(1) 2(1) i1 i2 tt pp show ?thesis by blast
qed

theorem merge_commutes_witness:
  "ids ex_store ex_smap2 \<inter> ids ex_store ex_smap = {}
   \<and> conflict_free same_net ex_store (node_addrs ex_store ex_smap2 \<union> node_addrs ex_store ex_smap)
   \<and> (\<exists>n1 s1 B' n2 s2 A'.
         merge same_net [''t2''] [''p6''] ex_store ex_smap2 ex_smap False = Inr (n1, None, s1, B')
       \<and> merge same_net [''t1''] [''p5'', ''p4'', ''p3'', ''p2'', ''p1''] ex_store ex_smap ex_smap2 False
           = Inr (n2, None, s2, A')
       \<and> ids s1 B' = ids s2 A'
       \<and> GetTarget s1 B' = GetTarget s2 A' \<and> GetProxy s1 B' = GetProxy s2 A')"
proof -
  have dj: "ids ex_store ex_smap2 \<inter> ids ex_store ex_smap = {}"
    by (simp add: ids_def ex_defs tmap_def pmap_def)
  have cf: "conflict_free same_net ex_store
              (node_addrs ex_store ex_smap2 \<union> node_addrs ex_store ex_smap)"
    by (simp add: conflict_free_def node_addrs_def ex_defs tmap_def pmap_def)
  have objs: "distinct [Tmap ex_smap2, Pmap ex_smap2, Tmap ex_smap, Pmap ex_smap]"
    by (simp add: ex_defs)
  have o: "is_order [''t2''] (tmap ex_store ex_smap2)" "is_order [''p6''] (pmap ex_store ex_smap2)"
    "is_order [''t1''] (tmap ex_store ex_smap)"
    "is_order [''p5'', ''p4'', ''p3'', ''p2'', ''p1''] (pmap ex_store ex_smap)"
    by (auto simp add: is_order_def ex_defs tmap_def pmap_def)
  have i: "dom (GetTarget ex_store ex_smap2) \<inter> dom (GetProxy ex_store ex_smap2) = {}
           \<and> dom (GetTarget ex_store ex_smap) \<inter> dom (GetProxy ex_store ex_smap) = {}"
    by (simp add: GetTarget_fun GetProxy_fun tmap_def pmap_def ex_defs)
  from merge_commutes [OF dj cf objs o] i
  have "\<exists>n1 s1 B' n2 s2 A'.
         merge same_net [''t2''] [''p6''] ex_store ex_smap2 ex_smap False = Inr (n1, None, s1, B')
       \<and> merge same_net [''t1''] [''p5'', ''p4'', ''p3'', ''p2'', ''p1''] ex_store ex_smap ex_smap2 False
           = Inr (n2, None, s2, A')
       \<and> ids s1 B' = ids s2 A'
       \<and> GetTarget s1 B' = GetTarget s2 A' \<and> GetProxy s1 B' = GetProxy s2 A'"
    by (elim exE conjE) (intro exI conjI, assumption, assumption, simp, blast, blast)
  with dj cf show ?thesis by blast
qed

lemma hdn_gen:
  "handleDuplicateNode dup s m nsi False = Inr (None, s', m')
   \<Longrightarrow> handleDuplicateNode dup s m nsi ov = Inr (None, s', m')"
  by (auto simp: handleDuplicateNode_def split: option.splits)

lemma merge_T_gen:
  "merge_T dup False m ks s dst added = Inr (a, None, s', dst')
   \<Longrightarrow> merge_T dup ov m ks s dst added = Inr (a, None, s', dst')"
proof (induction ks arbitrary: s added)
  case Nil
  then show ?case by simp
next
  case (Cons k ks)
  show ?case
  proof (cases "map_of (tmap s m) k")
    case None
    with Cons show ?thesis by simp
  next
    case (Some si)
    show ?thesis
    proof (cases "handleDuplicateNode dup s dst si False")
      case (Inl f)
      with Cons.prems Some show ?thesis by simp
    next
      case (Inr x)
      obtain e1 s1 d1 where x: "x = (e1, s1, d1)" by (cases x)
      with Inr hdn_False have eq: "s1 = s" "d1 = dst" by blast+
      show ?thesis
      proof (cases e1)
        case None
        with Inr x eq have h: "handleDuplicateNode dup s dst si False = Inr (None, s, dst)" by simp
        then have h': "handleDuplicateNode dup s dst si ov = Inr (None, s, dst)" by (rule hdn_gen)
        show ?thesis
        proof (cases "map_of (tmap s dst) k = None \<and> map_of (pmap s dst) k = None")
          case True
          with Cons.prems Some h
          have "merge_T dup False m ks (map_put s (Tmap dst) k si) dst (added + 1)
                  = Inr (a, None, s', dst')" by simp
          then have "merge_T dup ov m ks (map_put s (Tmap dst) k si) dst (added + 1)
                  = Inr (a, None, s', dst')" by (rule Cons.IH)
          with Some h' True show ?thesis by simp
        next
          case False
          with Cons.prems Some h
          have "merge_T dup False m ks s dst added = Inr (a, None, s', dst')" by auto
          then have "merge_T dup ov m ks s dst added = Inr (a, None, s', dst')" by (rule Cons.IH)
          with Some h' False show ?thesis by auto
        qed
      next
        case (Some e')
        with Cons.prems \<open>map_of (tmap s m) k = Some si\<close> Inr x eq show ?thesis
          by simp
      qed
    qed
  qed
qed

lemma merge_P_gen:
  "merge_P dup False m ks s dst added = Inr (a, None, s', dst')
   \<Longrightarrow> merge_P dup ov m ks s dst added = Inr (a, None, s', dst')"
proof (induction ks arbitrary: s added)
  case Nil
  then show ?case by simp
next
  case (Cons k ks)
  show ?case
  proof (cases "map_of (pmap s m) k")
    case None
    with Cons show ?thesis by simp
  next
    case (Some si)
    show ?thesis
    proof (cases "handleDuplicateNode dup s dst si False")
      case (Inl f)
      with Cons.prems Some show ?thesis by simp
    next
      case (Inr x)
      obtain e1 s1 d1 where x: "x = (e1, s1, d1)" by (cases x)
      with Inr hdn_False have eq: "s1 = s" "d1 = dst" by blast+
      show ?thesis
      proof (cases e1)
        case None
        with Inr x eq have h: "handleDuplicateNode dup s dst si False = Inr (None, s, dst)" by simp
        then have h': "handleDuplicateNode dup s dst si ov = Inr (None, s, dst)" by (rule hdn_gen)
        show ?thesis
        proof (cases "map_of (pmap s dst) k = None \<and> map_of (tmap s dst) k = None")
          case True
          with Cons.prems Some h
          have "merge_P dup False m ks (map_put s (Pmap dst) k si) dst (added + 1)
                  = Inr (a, None, s', dst')" by simp
          then have "merge_P dup ov m ks (map_put s (Pmap dst) k si) dst (added + 1)
                  = Inr (a, None, s', dst')" by (rule Cons.IH)
          with Some h' True show ?thesis by simp
        next
          case False
          with Cons.prems Some h
          have "merge_P dup False m ks s dst added = Inr (a, None, s', dst')" by auto
          then have "merge_P dup ov m ks s dst added = Inr (a, None, s', dst')" by (rule Cons.IH)
          with Some h' False show ?thesis by auto
        qed
      next
        case (Some e')
        with Cons.prems \<open>map_of (pmap s m) k = Some si\<close> Inr x eq show ?thesis
          by simp
      qed
    qed
  qed
qed

lemma merge_gen:
  assumes "merge dup kt kp s m dst False = Inr (a, None, s', dst')"
  shows "merge dup kt kp s m dst ov = Inr (a, None, s', dst')"
proof -
  from assms obtain a1 s1 d1 a2 s2 d2 where
    T: "merge_T dup False m kt s dst 0 = Inr (a1, None, s1, d1)"
    and P: "merge_P dup False m kp s1 d1 a1 = Inr (a2, None, s2, d2)"
    and R: "Inr (a2, None, s2,
                 if UUID m \<noteq> [] \<and> UUID d2 = []
                 then d2\<lparr>UUID := UUID m, CreationTime := CreationTime m\<rparr> else d2)
            = (Inr (a, None, s', dst') :: fatal + int \<times> error option \<times> store \<times> smapX)"
    by (auto simp: merge_def split: sum.splits option.splits)
  from merge_T_gen [OF T, of ov] merge_P_gen [OF P, of ov] R
  show ?thesis by (simp add: merge_def)
qed

text \<open>
  C10. \<^verbatim>\<open>merge\<close> writes the nodes it carries over into the maps of the destination
  and leaves the version alone: when \<^verbatim>\<open>merge\<close> returns, with or without an error,
  and no node was evicted, the version of the destination is what it was. No node is
  evicted when the call is without override, when no two nodes of the two snapshots
  are in conflict, or when duplicate detection finds nothing during the call, which is
  to say that the same call without override returns without an error.
\<close>

theorem merge_keeps_version:
  assumes r: "merge dup kt kp s m dst override = Inr (added, err, s', dst')"
    and q: "override = False
            \<or> (conflict_free dup s (node_addrs s m \<union> node_addrs s dst)
               \<and> distinct [Tmap m, Pmap m, Tmap dst, Pmap dst])
            \<or> (\<exists>a0 s0 d0. merge dup kt kp s m dst False = Inr (a0, None, s0, d0))"
  shows "Version dst' = Version dst"
proof -
  have F: "\<And>a0 e0 s0 d0. merge dup kt kp s m dst False = Inr (a0, e0, s0, d0)
             \<Longrightarrow> Version d0 = Version dst"
    by (auto simp: merge_def split: sum.splits option.splits if_splits
             dest!: merge_T_False_dst merge_P_False_dst)
  from q consider "override = False"
    | "conflict_free dup s (node_addrs s m \<union> node_addrs s dst)
               \<and> distinct [Tmap m, Pmap m, Tmap dst, Pmap dst]"
    | a0 s0 d0 where "merge dup kt kp s m dst False = Inr (a0, None, s0, d0)"
    by blast
  then show ?thesis
  proof cases
    case 1
    with r F show ?thesis by blast
  next
    case 2
    then have d: "Tmap m \<noteq> Tmap dst" "Pmap dst \<noteq> Tmap dst" "Pmap m \<noteq> Pmap dst" "Pmap m \<noteq> Tmap dst"
      by auto
    from 2 have cf: "conflict_free dup s (node_addrs s m \<union> node_addrs s dst)" by simp
    from merge_conflict_free [OF d cf, of kt kp override] r show ?thesis by auto
  next
    case 3
    from merge_gen [OF 3, of override] r have "dst' = d0" by simp
    with F [OF 3] show ?thesis by simp
  qed
qed

theorem merge_keeps_version_witness:
  "(\<exists>s' dst'. merge same_net [''t2''] [''p6''] ex_store ex_smap2 ex_smap False = Inr (2, None, s', dst')
      \<and> Version dst' = 10)
   \<and> (\<exists>s' dst'. merge same_net [''t2''] [''p6''] ex_store ex_smap2 ex_smap True = Inr (2, None, s', dst')
      \<and> Version dst' = 10)"
proof -
  have "\<exists>s' dst'. merge same_net [''t2''] [''p6''] ex_store ex_smap2 ex_smap False
                    = Inr (2, None, s', dst')"
    by (simp add: merge_def handleDuplicateNode_def IsDuplicate_def tmap_def pmap_def map_put_def
          ex_defs)
  then obtain s' dst' where
    r: "merge same_net [''t2''] [''p6''] ex_store ex_smap2 ex_smap False = Inr (2, None, s', dst')"
    by blast
  from merge_keeps_version [OF r] have v: "Version dst' = Version ex_smap" by simp
  have r2: "merge same_net [''t2''] [''p6''] ex_store ex_smap2 ex_smap True = Inr (2, None, s', dst')"
    using r by (rule merge_gen)
  have q: "True = False
            \<or> (conflict_free same_net ex_store (node_addrs ex_store ex_smap2 \<union> node_addrs ex_store ex_smap)
               \<and> distinct [Tmap ex_smap2, Pmap ex_smap2, Tmap ex_smap, Pmap ex_smap])
            \<or> (\<exists>a0 s0 d0. merge same_net [''t2''] [''p6''] ex_store ex_smap2 ex_smap False
                             = Inr (a0, None, s0, d0))"
    using r by blast
  from merge_keeps_version [OF r2 q] have v2: "Version dst' = Version ex_smap" .
  from r r2 v v2 show ?thesis by (auto simp: ex_smap_def)
qed

subsection \<open>clone\<close>

lemma clone_loop_frame:
  "nnext s \<le> nnext (clone_loop src dst ks s)
       \<and> mnext (clone_loop src dst ks s) = mnext s
       \<and> (\<forall>a. a < nnext s \<longrightarrow> nodes (clone_loop src dst ks s) a = nodes s a)
       \<and> (\<forall>a. a \<noteq> dst \<longrightarrow> maps (clone_loop src dst ks s) a = maps s a)
       \<and> (\<forall>k. k \<notin> set ks \<longrightarrow> map_of (maps (clone_loop src dst ks s) dst) k = map_of (maps s dst) k)
       \<and> snd ` set (maps (clone_loop src dst ks s) dst)
             \<subseteq> snd ` set (maps s dst) \<union> {a. nnext s \<le> a \<and> a < nnext (clone_loop src dst ks s)}"
proof (induction ks arbitrary: s)
  case Nil
  then show ?case by simp
next
  case (Cons k ks)
  show ?case
  proof (cases "map_of (maps s src) k")
    case None
    then have e: "clone_loop src dst (k # ks) s = clone_loop src dst ks s" by simp
    have "\<forall>k'. k' \<notin> set (k # ks) \<longrightarrow> k' \<notin> set ks" by simp
    with Cons.IH [of s] show ?thesis unfolding e by blast
  next
    case (Some v)
    define s1 where "s1 = map_put (snd (Clone_node s v)) dst k (nnext s)"
    have e: "clone_loop src dst (k # ks) s = clone_loop src dst ks s1"
      using Some by (simp add: s1_def Clone_node_def)
    have n1: "nnext s1 = Suc (nnext s)" "mnext s1 = mnext s"
      by (simp_all add: s1_def Clone_node_def map_put_def)
    have o1: "\<forall>a. a < nnext s \<longrightarrow> nodes s1 a = nodes s a"
      by (simp add: s1_def Clone_node_def map_put_def)
    have m1: "\<forall>a. a \<noteq> dst \<longrightarrow> maps s1 a = maps s a"
      by (simp add: s1_def Clone_node_def map_put_def)
    have d1: "map_of (maps s1 dst) = (map_of (maps s dst))(k \<mapsto> nnext s)"
      by (simp add: s1_def Clone_node_def map_put_def update_conv')
    have d2: "snd ` set (maps s1 dst) \<subseteq> insert (nnext s) (snd ` set (maps s dst))"
      using snd_update_subset [of k "nnext s" "maps s dst"]
      by (simp add: s1_def Clone_node_def map_put_def)
    let ?s' = "clone_loop src dst ks s1"
    from Cons.IH [of s1] have ih:
      "nnext s1 \<le> nnext ?s'" "mnext ?s' = mnext s1"
      "\<forall>a. a < nnext s1 \<longrightarrow> nodes ?s' a = nodes s1 a"
      "\<forall>a. a \<noteq> dst \<longrightarrow> maps ?s' a = maps s1 a"
      "\<forall>k. k \<notin> set ks \<longrightarrow> map_of (maps ?s' dst) k = map_of (maps s1 dst) k"
      "snd ` set (maps ?s' dst) \<subseteq> snd ` set (maps s1 dst) \<union> {a. nnext s1 \<le> a \<and> a < nnext ?s'}"
      by blast+
    have c1: "nnext s \<le> nnext ?s'" using ih(1) n1 by simp
    have c2: "mnext ?s' = mnext s" using ih(2) n1 by simp
    have c3: "\<forall>a. a < nnext s \<longrightarrow> nodes ?s' a = nodes s a"
      using ih(3) o1 n1 by simp
    have c4: "\<forall>a. a \<noteq> dst \<longrightarrow> maps ?s' a = maps s a" using ih(4) m1 by simp
    have c5: "\<forall>k'. k' \<notin> set (k # ks) \<longrightarrow> map_of (maps ?s' dst) k' = map_of (maps s dst) k'"
      using ih(5) d1 by simp
    have c6: "snd ` set (maps ?s' dst) \<subseteq> snd ` set (maps s dst) \<union> {a. nnext s \<le> a \<and> a < nnext ?s'}"
    proof
      fix a assume "a \<in> snd ` set (maps ?s' dst)"
      with ih(6) have "a \<in> snd ` set (maps s1 dst) \<or> (nnext s1 \<le> a \<and> a < nnext ?s')" by blast
      then show "a \<in> snd ` set (maps s dst) \<union> {a. nnext s \<le> a \<and> a < nnext ?s'}"
        using d2 n1 ih(1) by auto
    qed
    from c1 c2 c3 c4 c5 c6 show ?thesis unfolding e by blast
  qed
qed

lemma clone_loop_copy:
  assumes "dst \<noteq> src" and "\<forall>k v. map_of (maps s src) k = Some v \<longrightarrow> v < nnext s"
  shows "\<forall>k v. k \<in> set ks \<and> map_of (maps s src) k = Some v
           \<longrightarrow> (\<exists>a. map_of (maps (clone_loop src dst ks s) dst) k = Some a
                    \<and> nodes (clone_loop src dst ks s) a = nodes s v)"
  using assms(2)
proof (induction ks arbitrary: s)
  case Nil
  then show ?case by simp
next
  case (Cons k ks)
  show ?case
  proof (cases "map_of (maps s src) k")
    case None
    then have e: "clone_loop src dst (k # ks) s = clone_loop src dst ks s" by simp
    from Cons.IH [OF Cons.prems] None show ?thesis unfolding e by auto
  next
    case (Some v)
    define s1 where "s1 = map_put (snd (Clone_node s v)) dst k (nnext s)"
    have e: "clone_loop src dst (k # ks) s = clone_loop src dst ks s1"
      using Some by (simp add: s1_def Clone_node_def)
    have n1: "nnext s1 = Suc (nnext s)"
      by (simp_all add: s1_def Clone_node_def map_put_def)
    have o1: "\<forall>a. a < nnext s \<longrightarrow> nodes s1 a = nodes s a"
      by (simp add: s1_def Clone_node_def map_put_def)
    have new: "nodes s1 (nnext s) = nodes s v"
      by (simp add: s1_def Clone_node_def map_put_def)
    have src1: "maps s1 src = maps s src" using assms(1)
      by (simp add: s1_def Clone_node_def map_put_def)
    have d1: "map_of (maps s1 dst) k = Some (nnext s)"
      by (simp add: s1_def Clone_node_def map_put_def update_conv')
    have p1: "\<forall>k v. map_of (maps s1 src) k = Some v \<longrightarrow> v < nnext s1"
      using Cons.prems src1 n1 by (auto simp: less_Suc_eq)
    let ?s' = "clone_loop src dst ks s1"
    note fr = clone_loop_frame [of s1 src dst ks]
    show ?thesis unfolding e
    proof (intro allI impI)
      fix k' v' assume a: "k' \<in> set (k # ks) \<and> map_of (maps s src) k' = Some v'"
      then have v'old: "v' < nnext s" using Cons.prems by blast
      show "\<exists>a. map_of (maps ?s' dst) k' = Some a \<and> nodes ?s' a = nodes s v'"
      proof (cases "k' \<in> set ks")
        case True
        with a src1 Cons.IH [OF p1] obtain a' where
          "map_of (maps ?s' dst) k' = Some a'" "nodes ?s' a' = nodes s1 v'" by metis
        with o1 v'old show ?thesis by auto
      next
        case False
        with a have kk: "k' = k" by simp
        with a Some have vv: "v' = v" by simp
        from fr False have "map_of (maps ?s' dst) k' = map_of (maps s1 dst) k'" by blast
        with kk d1 have 1: "map_of (maps ?s' dst) k' = Some (nnext s)" by simp
        from fr n1 have "nodes ?s' (nnext s) = nodes s1 (nnext s)" by simp
        with new vv have 2: "nodes ?s' (nnext s) = nodes s v'" by simp
        from 1 2 show ?thesis by blast
      qed
    qed
  qed
qed


lemma clone_facts:
  assumes p: "Primary m = Some p"
    and al: "allocated s m"
    and okt: "is_order kt (tmap s m)" and okp: "is_order kp (pmap s m)"
  shows "\<exists>s' dst. clone kt kp s m = Inr (s', dst)
     \<and> dst = m\<lparr>Tmap := mnext s, Pmap := Suc (mnext s),
               Primary := GetProxy s' dst (DaemonID (nodes s p)), sgl := None\<rparr>
     \<and> mnext s' = Suc (Suc (mnext s)) \<and> nnext s \<le> nnext s'
     \<and> (\<forall>a. a < nnext s \<longrightarrow> nodes s' a = nodes s a)
     \<and> (\<forall>a. a < mnext s \<longrightarrow> maps s' a = maps s a)
     \<and> (\<forall>a\<in>node_addrs s' dst. nnext s \<le> a \<and> a < nnext s')
     \<and> (\<forall>k. rel_option (\<lambda>a' a. nodes s' a' = nodes s a) (GetTarget s' dst k) (GetTarget s m k))
     \<and> (\<forall>k. rel_option (\<lambda>a' a. nodes s' a' = nodes s a) (GetProxy s' dst k) (GetProxy s m k))"
proof -
  define s2 where "s2 = s\<lparr>maps := (maps s)(mnext s := [], Suc (mnext s) := []),
                          mnext := Suc (Suc (mnext s))\<rparr>"
  define ta where "ta = mnext s"
  define pa where "pa = Suc (mnext s)"
  define s3 where "s3 = clone_loop (Tmap m) ta kt s2"
  define s4 where "s4 = clone_loop (Pmap m) pa kp s3"
  define dst where "dst = m\<lparr>Tmap := ta, Pmap := pa,
               Primary := GetProxy s4 (m\<lparr>Tmap := ta, Pmap := pa\<rparr>) (DaemonID (nodes s4 p)), sgl := None\<rparr>"
  have tm: "Tmap m < mnext s" and pm: "Pmap m < mnext s"
    and na: "\<forall>a\<in>node_addrs s m. a < nnext s" and pp: "p < nnext s"
    using al p by (simp_all add: allocated_def)
  have ne: "ta \<noteq> Tmap m" "pa \<noteq> Pmap m" "ta \<noteq> Pmap m" "pa \<noteq> Tmap m" "ta \<noteq> pa"
    using tm pm by (simp_all add: ta_def pa_def)
  have cl: "clone kt kp s m = Inr (s4, dst)"
    using p by (simp add: clone_def init_smap_def alloc_map_def Let_def s2_def s3_def s4_def
                  dst_def ta_def pa_def)
  have s2f: "nnext s2 = nnext s" "nodes s2 = nodes s" "mnext s2 = Suc (Suc (mnext s))"
    "maps s2 ta = []" "maps s2 pa = []" "\<forall>a. a < mnext s \<longrightarrow> maps s2 a = maps s a"
    by (simp_all add: s2_def ta_def pa_def)
  note f3 = clone_loop_frame [of s2 "Tmap m" ta kt, folded s3_def]
  note f4 = clone_loop_frame [of s3 "Pmap m" pa kp, folded s4_def]
  have src2T: "maps s2 (Tmap m) = tmap s m" using s2f(6) tm by (simp add: tmap_def)
  have src3P: "maps s3 (Pmap m) = pmap s m"
    using f3 ne(3) s2f(6) pm by (simp add: pmap_def)
  have n3: "\<forall>a. a < nnext s \<longrightarrow> nodes s3 a = nodes s a" using f3 s2f by simp
  have nn0: "nnext s \<le> nnext s3" using f3 s2f by simp
  have n4: "\<forall>a. a < nnext s \<longrightarrow> nodes s4 a = nodes s a"
  proof (intro allI impI)
    fix a assume a: "a < nnext s"
    with nn0 have "a < nnext s3" by simp
    with f4 have "nodes s4 a = nodes s3 a" by simp
    with n3 a show "nodes s4 a = nodes s a" by simp
  qed
  have m4: "\<forall>a. a < mnext s \<longrightarrow> maps s4 a = maps s a"
  proof (intro allI impI)
    fix a assume a: "a < mnext s"
    then have "a \<noteq> ta" "a \<noteq> pa" by (simp_all add: ta_def pa_def)
    with f3 f4 have "maps s4 a = maps s2 a" by simp
    with s2f(6) a show "maps s4 a = maps s a" by simp
  qed
  have t4: "tmap s4 dst = maps s3 ta" using f4 ne(5) by (simp add: tmap_def dst_def)
  have p4: "pmap s4 dst = maps s4 pa" by (simp add: pmap_def dst_def)
  have nn: "nnext s \<le> nnext s3" "nnext s3 \<le> nnext s4" using f3 f4 s2f by simp_all
  have mn: "mnext s4 = Suc (Suc (mnext s))" using f3 f4 s2f by simp
  have fs3: "\<forall>a\<in>snd ` set (maps s3 ta). nnext s \<le> a \<and> a < nnext s3"
    using f3 s2f by auto
  have fresh3: "\<forall>k a. map_of (maps s3 ta) k = Some a \<longrightarrow> nnext s \<le> a \<and> a < nnext s3"
  proof (intro allI impI)
    fix k a assume "map_of (maps s3 ta) k = Some a"
    then have "a \<in> snd ` set (maps s3 ta)" by (rule map_of_snd_mem)
    with fs3 show "nnext s \<le> a \<and> a < nnext s3" by blast
  qed
  have fs4: "\<forall>a\<in>snd ` set (maps s4 pa). nnext s3 \<le> a \<and> a < nnext s4"
  proof -
    have "maps s3 pa = []" using f3 ne(5) s2f by simp
    then show ?thesis using f4 by auto
  qed
  have cpT: "\<forall>k v. k \<in> set kt \<and> map_of (tmap s m) k = Some v
           \<longrightarrow> (\<exists>a. map_of (maps s3 ta) k = Some a \<and> nodes s3 a = nodes s v)"
  proof -
    have "\<forall>k v. map_of (maps s2 (Tmap m)) k = Some v \<longrightarrow> v < nnext s2"
    proof (intro allI impI)
      fix k v assume "map_of (maps s2 (Tmap m)) k = Some v"
      then have "v \<in> snd ` set (tmap s m)" unfolding src2T by (rule map_of_snd_mem)
      then have "v \<in> node_addrs s m" by (simp add: node_addrs_def)
      with na show "v < nnext s2" by (simp add: s2f)
    qed
    from clone_loop_copy [OF ne(1) this, of kt] show ?thesis
      unfolding src2T s2f s3_def [symmetric] .
  qed
  have cpP: "\<forall>k v. k \<in> set kp \<and> map_of (pmap s m) k = Some v
           \<longrightarrow> (\<exists>a. map_of (maps s4 pa) k = Some a \<and> nodes s4 a = nodes s v)"
  proof -
    have old: "\<forall>k v. map_of (pmap s m) k = Some v \<longrightarrow> v < nnext s"
    proof (intro allI impI)
      fix k v assume "map_of (pmap s m) k = Some v"
      then have "v \<in> snd ` set (pmap s m)" by (rule map_of_snd_mem)
      then have "v \<in> node_addrs s m" by (simp add: node_addrs_def)
      with na show "v < nnext s" by simp
    qed
    have "\<forall>k v. map_of (maps s3 (Pmap m)) k = Some v \<longrightarrow> v < nnext s3"
    proof (intro allI impI)
      fix k v assume "map_of (maps s3 (Pmap m)) k = Some v"
      with old have "v < nnext s" unfolding src3P by blast
      with nn(1) show "v < nnext s3" by simp
    qed
    from clone_loop_copy [OF ne(2) this, of kp]
    have "\<forall>k v. k \<in> set kp \<and> map_of (pmap s m) k = Some v
           \<longrightarrow> (\<exists>a. map_of (maps s4 pa) k = Some a \<and> nodes s4 a = nodes s3 v)"
      unfolding src3P s4_def [symmetric] .
    show ?thesis
    proof (intro allI impI)
      fix k v assume a: "k \<in> set kp \<and> map_of (pmap s m) k = Some v"
      with \<open>\<forall>k v. k \<in> set kp \<and> map_of (pmap s m) k = Some v
           \<longrightarrow> (\<exists>a. map_of (maps s4 pa) k = Some a \<and> nodes s4 a = nodes s3 v)\<close>
      obtain a' where "map_of (maps s4 pa) k = Some a'" "nodes s4 a' = nodes s3 v" by blast
      moreover from a old have "v < nnext s" by blast
      ultimately show "\<exists>a. map_of (maps s4 pa) k = Some a \<and> nodes s4 a = nodes s v"
        using n3 by auto
    qed
  qed
  have relT: "\<forall>k. rel_option (\<lambda>a' a. nodes s4 a' = nodes s a) (GetTarget s4 dst k) (GetTarget s m k)"
  proof
    fix k
    show "rel_option (\<lambda>a' a. nodes s4 a' = nodes s a) (GetTarget s4 dst k) (GetTarget s m k)"
    proof (cases "map_of (tmap s m) k")
      case None
      then have "k \<notin> set kt" using okt by (simp add: is_order_def map_of_eq_None_iff)
      with f3 s2f have "map_of (maps s3 ta) k = None" by simp
      with None show ?thesis by (simp add: GetTarget_def t4)
    next
      case (Some v)
      then have "k \<in> set kt" using okt
        by (metis is_order_def map_of_eq_None_iff option.distinct(1))
      with cpT Some obtain a where a: "map_of (maps s3 ta) k = Some a" "nodes s3 a = nodes s v"
        by blast
      with fresh3 have "a < nnext s3" by blast
      with f4 have "nodes s4 a = nodes s3 a" by simp
      with a Some show ?thesis by (simp add: GetTarget_def t4)
    qed
  qed
  have relP: "\<forall>k. rel_option (\<lambda>a' a. nodes s4 a' = nodes s a) (GetProxy s4 dst k) (GetProxy s m k)"
  proof
    fix k
    show "rel_option (\<lambda>a' a. nodes s4 a' = nodes s a) (GetProxy s4 dst k) (GetProxy s m k)"
    proof (cases "map_of (pmap s m) k")
      case None
      then have "k \<notin> set kp" using okp by (simp add: is_order_def map_of_eq_None_iff)
      moreover have "maps s3 pa = []" using f3 ne(5) s2f by simp
      ultimately have "map_of (maps s4 pa) k = None" using f4 by simp
      with None show ?thesis by (simp add: GetProxy_def p4)
    next
      case (Some v)
      then have "k \<in> set kp" using okp
        by (metis is_order_def map_of_eq_None_iff option.distinct(1))
      with cpP Some obtain a where a: "map_of (maps s4 pa) k = Some a" "nodes s4 a = nodes s v"
        by blast
      with Some show ?thesis by (simp add: GetProxy_def p4)
    qed
  qed
  have fr: "\<forall>a\<in>node_addrs s4 dst. nnext s \<le> a \<and> a < nnext s4"
  proof
    fix a assume "a \<in> node_addrs s4 dst"
    then have "a \<in> snd ` set (maps s3 ta) \<or> a \<in> snd ` set (maps s4 pa)"
      unfolding node_addrs_def t4 p4 by blast
    then show "nnext s \<le> a \<and> a < nnext s4"
    proof
      assume "a \<in> snd ` set (maps s3 ta)"
      with fs3 have "nnext s \<le> a \<and> a < nnext s3" by blast
      with nn show ?thesis by simp
    next
      assume "a \<in> snd ` set (maps s4 pa)"
      with fs4 have "nnext s3 \<le> a \<and> a < nnext s4" by blast
      with nn show ?thesis by simp
    qed
  qed
  have dst_eq: "dst = m\<lparr>Tmap := mnext s, Pmap := Suc (mnext s),
               Primary := GetProxy s4 dst (DaemonID (nodes s p)), sgl := None\<rparr>"
    using n4 pp by (simp add: dst_def ta_def pa_def GetProxy_def pmap_def)
  have nn4: "nnext s \<le> nnext s4" using nn by simp
  show ?thesis
    apply (rule exI [of _ s4])
    apply (rule exI [of _ dst])
    apply (intro conjI)
            apply (rule cl)
           apply (rule dst_eq)
          apply (rule mn)
         apply (rule nn4)
        apply (rule n4)
       apply (rule m4)
      apply (rule fr)
     apply (rule relT)
    apply (rule relP)
    done
qed

lemma clone_frame:
  assumes "clone kt kp s m = Inr (s', dst)"
  shows "(\<forall>a. a < nnext s \<longrightarrow> nodes s' a = nodes s a) \<and> (\<forall>a. a < mnext s \<longrightarrow> maps s' a = maps s a)"
proof -
  define s2 where "s2 = s\<lparr>maps := (maps s)(mnext s := [], Suc (mnext s) := []),
                          mnext := Suc (Suc (mnext s))\<rparr>"
  define s3 where "s3 = clone_loop (Tmap m) (mnext s) kt s2"
  define s4 where "s4 = clone_loop (Pmap m) (Suc (mnext s)) kp s3"
  have e: "s' = s4" using assms
    by (simp add: clone_def init_smap_def alloc_map_def Let_def s2_def s3_def s4_def
             split: option.splits)
  note f3 = clone_loop_frame [of s2 "Tmap m" "mnext s" kt, folded s3_def]
  note f4 = clone_loop_frame [of s3 "Pmap m" "Suc (mnext s)" kp, folded s4_def]
  have s2f: "nnext s2 = nnext s" "nodes s2 = nodes s"
    "\<forall>a. a < mnext s \<longrightarrow> maps s2 a = maps s a"
    by (simp_all add: s2_def)
  have n: "\<forall>a. a < nnext s \<longrightarrow> nodes s4 a = nodes s a"
  proof (intro allI impI)
    fix a assume a: "a < nnext s"
    with f3 s2f have "a < nnext s3" "nodes s3 a = nodes s a" by simp_all
    with f4 show "nodes s4 a = nodes s a" by simp
  qed
  have m: "\<forall>a. a < mnext s \<longrightarrow> maps s4 a = maps s a"
  proof (intro allI impI)
    fix a assume a: "a < mnext s"
    then have "a \<noteq> mnext s" "a \<noteq> Suc (mnext s)" by simp_all
    with f3 f4 have "maps s4 a = maps s2 a" by simp
    with s2f a show "maps s4 a = maps s a" by simp
  qed
  from n m show ?thesis unfolding e by blast
qed

text \<open>
  C6, as the code has it. For a snapshot \<open>m\<close> with a primary, living in the store,
  \<^verbatim>\<open>clone\<close> returns a snapshot \<open>dst\<close> with the version string, version, UUID and
  creation time of \<open>m\<close>; its maps have the keys of the maps of \<open>m\<close>, each key with a
  node record equal to the one of \<open>m\<close>; its primary is the proxy of \<open>dst\<close> with the id
  of the primary of \<open>m\<close>. The clone leaves the maps and nodes of \<open>m\<close> as they were,
  and so does every later write \<open>t\<close> to the store that changes only the two map
  objects of \<open>dst\<close> and the node records of \<open>dst\<close>. (The primary reference of \<open>dst\<close>
  is a field of the struct \<open>dst\<close>, which the model passes by value.)
\<close>

theorem clone_independent:
  assumes p: "Primary m = Some p"
    and al: "allocated s m"
    and okt: "is_order kt (tmap s m)" and okp: "is_order kp (pmap s m)"
  shows "\<exists>s' dst. clone kt kp s m = Inr (s', dst)
     \<and> vstr dst = vstr m \<and> Version dst = Version m \<and> UUID dst = UUID m
     \<and> CreationTime dst = CreationTime m
     \<and> (\<forall>k. rel_option (\<lambda>a' a. nodes s' a' = nodes s a) (GetTarget s' dst k) (GetTarget s m k))
     \<and> (\<forall>k. rel_option (\<lambda>a' a. nodes s' a' = nodes s a) (GetProxy s' dst k) (GetProxy s m k))
     \<and> Primary dst = GetProxy s' dst (DaemonID (nodes s p))
     \<and> Tmap dst \<noteq> Tmap m \<and> Pmap dst \<noteq> Pmap m \<and> Tmap dst \<noteq> Pmap m \<and> Pmap dst \<noteq> Tmap m
     \<and> node_addrs s' dst \<inter> insert p (node_addrs s m) = {}
     \<and> (\<forall>t. (\<forall>a. a \<notin> node_addrs s' dst \<longrightarrow> nodes t a = nodes s' a)
             \<and> (\<forall>a. a \<noteq> Tmap dst \<and> a \<noteq> Pmap dst \<longrightarrow> maps t a = maps s' a)
           \<longrightarrow> tmap t m = tmap s m \<and> pmap t m = pmap s m
               \<and> (\<forall>a\<in>insert p (node_addrs s m). nodes t a = nodes s a))"
proof -
  from clone_facts [OF p al okt okp] obtain s' dst where
    cl: "clone kt kp s m = Inr (s', dst)"
    and d: "dst = m\<lparr>Tmap := mnext s, Pmap := Suc (mnext s),
               Primary := GetProxy s' dst (DaemonID (nodes s p)), sgl := None\<rparr>"
    and n: "\<forall>a. a < nnext s \<longrightarrow> nodes s' a = nodes s a"
    and mm: "\<forall>a. a < mnext s \<longrightarrow> maps s' a = maps s a"
    and fr: "\<forall>a\<in>node_addrs s' dst. nnext s \<le> a \<and> a < nnext s'"
    and relT: "\<forall>k. rel_option (\<lambda>a' a. nodes s' a' = nodes s a) (GetTarget s' dst k) (GetTarget s m k)"
    and relP: "\<forall>k. rel_option (\<lambda>a' a. nodes s' a' = nodes s a) (GetProxy s' dst k) (GetProxy s m k)"
    by blast
  have tm: "Tmap m < mnext s" and pm: "Pmap m < mnext s"
    and na: "\<forall>a\<in>node_addrs s m. a < nnext s" and pp: "p < nnext s"
    using al p by (simp_all add: allocated_def)
  have f1: "vstr dst = vstr m" "Version dst = Version m" "UUID dst = UUID m"
    "CreationTime dst = CreationTime m" "Tmap dst = mnext s" "Pmap dst = Suc (mnext s)"
    "Primary dst = GetProxy s' dst (DaemonID (nodes s p))"
    by (subst d, simp)+
  have ne: "Tmap dst \<noteq> Tmap m" "Pmap dst \<noteq> Pmap m" "Tmap dst \<noteq> Pmap m" "Pmap dst \<noteq> Tmap m"
    using tm pm f1(5,6) by simp_all
  have old: "\<forall>a\<in>insert p (node_addrs s m). a < nnext s" using na pp by simp
  have dis: "node_addrs s' dst \<inter> insert p (node_addrs s m) = {}"
    using fr old by fastforce
  have frame: "\<forall>t. (\<forall>a. a \<notin> node_addrs s' dst \<longrightarrow> nodes t a = nodes s' a)
             \<and> (\<forall>a. a \<noteq> Tmap dst \<and> a \<noteq> Pmap dst \<longrightarrow> maps t a = maps s' a)
           \<longrightarrow> tmap t m = tmap s m \<and> pmap t m = pmap s m
               \<and> (\<forall>a\<in>insert p (node_addrs s m). nodes t a = nodes s a)"
  proof (intro allI impI, elim conjE)
    fix t :: store
    assume tn: "\<forall>a. a \<notin> node_addrs s' dst \<longrightarrow> nodes t a = nodes s' a"
      and tmaps: "\<forall>a. a \<noteq> Tmap dst \<and> a \<noteq> Pmap dst \<longrightarrow> maps t a = maps s' a"
    have 1: "tmap t m = tmap s m"
      using tmaps ne mm tm by (simp add: tmap_def)
    have 2: "pmap t m = pmap s m"
      using tmaps ne mm pm by (simp add: pmap_def)
    have 3: "\<forall>a\<in>insert p (node_addrs s m). nodes t a = nodes s a"
    proof
      fix a assume a: "a \<in> insert p (node_addrs s m)"
      with dis have "a \<notin> node_addrs s' dst" by blast
      with tn have "nodes t a = nodes s' a" by blast
      moreover from a old have "a < nnext s" by blast
      ultimately show "nodes t a = nodes s a" using n by simp
    qed
    from 1 2 3 show "tmap t m = tmap s m \<and> pmap t m = pmap s m
               \<and> (\<forall>a\<in>insert p (node_addrs s m). nodes t a = nodes s a)" by blast
  qed
  show ?thesis
    apply (rule exI [of _ s'])
    apply (rule exI [of _ dst])
    apply (intro conjI)
                 apply (rule cl)
                apply (rule f1)+
            apply (rule relT)
           apply (rule relP)
          apply (rule f1(7))
         apply (rule ne)+
     apply (rule dis)
    apply (rule frame)
    done
qed

theorem clone_independent_witness:
  "allocated ex_store ex_smap
   \<and> is_order [''t1''] (tmap ex_store ex_smap)
   \<and> is_order [''p3'', ''p1'', ''p5'', ''p2'', ''p4''] (pmap ex_store ex_smap)
   \<and> (\<exists>s' dst. clone [''t1''] [''p3'', ''p1'', ''p5'', ''p2'', ''p4''] ex_store ex_smap = Inr (s', dst)
         \<and> vstr dst = ''10''
         \<and> tmap (set_node_flags s' (the (GetProxy s' dst ''p2'')) 0) ex_smap = [(''t1'', 5)]
         \<and> Flags (nodes (set_node_flags s' (the (GetProxy s' dst ''p2'')) 0) 1) = 2)"
proof -
  have p: "Primary ex_smap = Some 0" by (simp add: ex_defs)
  have al: "allocated ex_store ex_smap"
    by (simp add: allocated_def node_addrs_def tmap_def pmap_def ex_defs)
  have o: "is_order [''t1''] (tmap ex_store ex_smap)"
    "is_order [''p3'', ''p1'', ''p5'', ''p2'', ''p4''] (pmap ex_store ex_smap)"
    by (auto simp add: is_order_def ex_defs tmap_def pmap_def)
  from clone_independent [OF p al o] obtain s' dst where
    cl: "clone [''t1''] [''p3'', ''p1'', ''p5'', ''p2'', ''p4''] ex_store ex_smap = Inr (s', dst)"
    and v: "vstr dst = vstr ex_smap"
    and relP: "\<forall>k. rel_option (\<lambda>a' a. nodes s' a' = nodes ex_store a) (GetProxy s' dst k)
                      (GetProxy ex_store ex_smap k)"
    and frame: "\<forall>t. (\<forall>a. a \<notin> node_addrs s' dst \<longrightarrow> nodes t a = nodes s' a)
             \<and> (\<forall>a. a \<noteq> Tmap dst \<and> a \<noteq> Pmap dst \<longrightarrow> maps t a = maps s' a)
           \<longrightarrow> tmap t ex_smap = tmap ex_store ex_smap \<and> pmap t ex_smap = pmap ex_store ex_smap
               \<and> (\<forall>a\<in>insert 0 (node_addrs ex_store ex_smap). nodes t a = nodes ex_store a)"
    by blast
  define a where "a = the (GetProxy s' dst ''p2'')"
  have "GetProxy ex_store ex_smap ''p2'' = Some 1" by (simp add: ex_defs acc_defs)
  with relP [rule_format, of "''p2''"] have g: "GetProxy s' dst ''p2'' = Some a"
    by (cases "GetProxy s' dst ''p2''") (simp_all add: a_def)
  then have "a \<in> snd ` set (pmap s' dst)" unfolding GetProxy_def by (rule map_of_snd_mem)
  then have ain: "a \<in> node_addrs s' dst" by (simp add: node_addrs_def)
  let ?t = "set_node_flags s' a 0"
  have "(\<forall>b. b \<notin> node_addrs s' dst \<longrightarrow> nodes ?t b = nodes s' b)
        \<and> (\<forall>b. b \<noteq> Tmap dst \<and> b \<noteq> Pmap dst \<longrightarrow> maps ?t b = maps s' b)"
    using ain by (auto simp: set_node_flags_def)
  with frame have r: "tmap ?t ex_smap = tmap ex_store ex_smap"
    "\<forall>b\<in>insert 0 (node_addrs ex_store ex_smap). nodes ?t b = nodes ex_store b" by blast+
  have "1 \<in> insert 0 (node_addrs ex_store ex_smap)"
    by (simp add: node_addrs_def tmap_def pmap_def ex_defs)
  with r(2) have "nodes ?t 1 = nodes ex_store 1" by blast
  then have f: "Flags (nodes ?t 1) = 2" by (simp add: ex_defs)
  have tt: "tmap ?t ex_smap = [(''t1'', 5)]" using r(1) by (simp add: tmap_def ex_defs)
  from cl v tt f have "\<exists>s' dst. clone [''t1''] [''p3'', ''p1'', ''p5'', ''p2'', ''p4''] ex_store ex_smap = Inr (s', dst)
         \<and> vstr dst = ''10''
         \<and> tmap (set_node_flags s' (the (GetProxy s' dst ''p2'')) 0) ex_smap = [(''t1'', 5)]
         \<and> Flags (nodes (set_node_flags s' (the (GetProxy s' dst ''p2'')) 0) 1) = 2"
    unfolding a_def by (auto simp: ex_smap_def)
  with al o show ?thesis by blast
qed

text \<open>
  The claim as stated fails on a snapshot without a primary, such as the one
  \<^verbatim>\<open>newSmap\<close> makes: \<^verbatim>\<open>m.Primary.ID()\<close> dereferences nil.
\<close>

theorem clone_of_newSmap_panics:
  "Primary (snd (newSmapX ex_store)) = None
   \<and> clone [] [] (fst (newSmapX ex_store)) (snd (newSmapX ex_store)) = Inl NilDeref"
  by (simp add: newSmapX_def init_smap_def alloc_map_def clone_def Let_def)

subsection \<open>synchronize\<close>

lemma set_node_flags_same: "set_node_flags s si (Flags (nodes s si)) = s"
  by (simp add: set_node_flags_def)

text \<open>
  C3, as the code has it. When the version of the candidate is at most the version of
  the published snapshot, \<^verbatim>\<open>synchronize\<close> leaves the owner as it is (the published
  snapshot, the file, the versions sent to the listeners) and writes to the store at
  most the flags of the local node \<open>si\<close>. For a candidate that \<^verbatim>\<open>validate\<close>
  accepts it returns the downgrade error when the version is strictly less and nil
  when the versions are equal; for a candidate that \<^verbatim>\<open>validate\<close> rejects it returns
  the error of \<^verbatim>\<open>validate\<close> (or stops in \<^verbatim>\<open>debug.Assertf\<close> in a debug build).
\<close>

theorem synchronize_not_newer:
  assumes cur: "smap r = Some cur" and n: "newSmap = Some n"
    and le: "sint (Version n) \<le> sint (Version cur)"
  shows "(\<forall>err r' s'. synchronize validUUID dbg encode SaveMeta r s si newSmap payload = Inr (err, r', s')
            \<longrightarrow> r' = r \<and> (\<exists>f. s' = set_node_flags s si f))
       \<and> (validate validUUID s newSmap = Inr None \<longrightarrow>
            (\<exists>f. synchronize validUUID dbg encode SaveMeta r s si newSmap payload
                 = Inr (if sint (Version n) < sint (Version cur) then Some ErrDowngrade else None,
                        r, set_node_flags s si f)))
       \<and> (\<forall>e. validate validUUID s newSmap = Inr (Some e) \<longrightarrow>
            synchronize validUUID dbg encode SaveMeta r s si newSmap payload
              = (if dbg then Inl (AssertFailed ''is invalid'') else Inr (Some e, r, s)))"
proof (intro conjI allI impI)
  fix err r' s'
  assume "synchronize validUUID dbg encode SaveMeta r s si newSmap payload = Inr (err, r', s')"
  then show "r' = r" using cur n le
    by (auto simp: synchronize_def Let_def split: sum.splits option.splits if_splits)
next
  fix err r' s'
  assume "synchronize validUUID dbg encode SaveMeta r s si newSmap payload = Inr (err, r', s')"
  then have "s' = s \<or> (\<exists>f. s' = set_node_flags s si f)" using cur n le
    by (auto simp: synchronize_def Let_def split: sum.splits option.splits if_splits)
  then show "\<exists>f. s' = set_node_flags s si f"
    using set_node_flags_same [of s si] by metis
next
  assume "validate validUUID s newSmap = Inr None"
  then have "\<exists>s'. (s' = s \<or> (\<exists>f. s' = set_node_flags s si f)) \<and> synchronize validUUID dbg encode SaveMeta r s si newSmap payload
                 = Inr (if sint (Version n) < sint (Version cur) then Some ErrDowngrade else None,
                        r, s')"
    using cur n le
    by (auto simp: synchronize_def Let_def split: sum.splits option.splits if_splits)
  then show "\<exists>f. synchronize validUUID dbg encode SaveMeta r s si newSmap payload
                 = Inr (if sint (Version n) < sint (Version cur) then Some ErrDowngrade else None,
                        r, set_node_flags s si f)"
    using set_node_flags_same [of s si] by metis
next
  fix e assume "validate validUUID s newSmap = Inr (Some e)"
  then show "synchronize validUUID dbg encode SaveMeta r s si newSmap payload
              = (if dbg then Inl (AssertFailed ''is invalid'') else Inr (Some e, r, s))"
    by (simp add: synchronize_def)
qed


theorem synchronize_not_newer_witness:
  "smap ex_owner = Some ex_smap
   \<and> sint (Version (ex_smap\<lparr>Version := 7\<rparr>)) \<le> sint (Version ex_smap)
   \<and> (\<exists>f. synchronize uuid_len9 False ex_encode ex_SaveMeta ex_owner ex_store 0
             (Some (ex_smap\<lparr>Version := 7\<rparr>)) None
           = Inr (Some ErrDowngrade, ex_owner, set_node_flags ex_store 0 f))"
proof -
  have c: "smap ex_owner = Some ex_smap" by (simp add: ex_defs)
  have le: "sint (Version (ex_smap\<lparr>Version := 7\<rparr>)) \<le> sint (Version ex_smap)"
    by (simp add: ex_defs)
  have v: "validate uuid_len9 ex_store (Some (ex_smap\<lparr>Version := 7\<rparr>)) = Inr None"
    by (simp add: validate_def ex_defs acc_defs)
  have lt: "sint (Version (ex_smap\<lparr>Version := 7\<rparr>)) < sint (Version ex_smap)"
    by (simp add: ex_defs)
  from synchronize_not_newer [OF c refl le, of uuid_len9 False ex_encode ex_SaveMeta ex_store 0 None]
    v lt
  have "\<exists>f. synchronize uuid_len9 False ex_encode ex_SaveMeta ex_owner ex_store 0
             (Some (ex_smap\<lparr>Version := 7\<rparr>)) None
           = Inr (Some ErrDowngrade, ex_owner, set_node_flags ex_store 0 f)"
    by simp
  with c le show ?thesis by blast
qed

text \<open>
  The claim as stated fails for a candidate that is not valid: with the published
  version 10, a candidate of version 0 gets the error of \<^verbatim>\<open>validate\<close> and not the
  downgrade error, and a candidate of version 10 with an invalid UUID gets an error
  and not nil.
\<close>

theorem synchronize_invalid_candidate:
  "synchronize uuid_len9 False ex_encode ex_SaveMeta ex_owner ex_store 0
       (Some (ex_smap\<lparr>Version := 0\<rparr>)) None
     = Inr (Some (ErrNew ''Smap v0''), ex_owner, ex_store)
   \<and> synchronize uuid_len9 False ex_encode ex_SaveMeta ex_owner ex_store 0
       (Some (ex_smap\<lparr>UUID := ''x''\<rparr>)) None
     = Inr (Some (ErrInvalidUUID ''x''), ex_owner, ex_store)"
  by (simp add: synchronize_def validate_def ex_defs acc_defs)

subsection \<open>modify\<close>

text \<open>
  C2. \<^verbatim>\<open>modify\<close> has cloned the published snapshot \<open>cur\<close> (the clone is \<open>cl\<close> in the
  store \<open>s1\<close>, and no object that existed before has changed). If \<^verbatim>\<open>pre\<close> then returns
  an error, or \<^verbatim>\<open>pre\<close> returns nil and writing the encoded clone fails, \<^verbatim>\<open>modify\<close>
  returns an error, the one of \<^verbatim>\<open>pre\<close> or the error of the write wrapped as
  "failed to persist"; the owner still publishes \<open>cur\<close>, no version has been sent to
  the listeners, and the store is the one \<^verbatim>\<open>pre\<close> has left.
\<close>

theorem modify_fails_unpublished:
  assumes cur: "smap r = Some cur"
    and cl: "clone kt kp s cur = Inr (s1, cl)"
    and fail: "(pre ctx s1 cl = (Some e, s2, cl2) \<and> err = e)
             \<or> (pre ctx s1 cl = (None, s2, cl2) \<and> fst (SaveMeta (disk r) (encode s2 cl2)) = Some e
                 \<and> err = ErrFailedTo ''persist'' e)"
  shows "\<exists>r'. modify encode SaveMeta kt kp r s ctx = Inr (Some err, r', s2)
           \<and> smap r' = Some cur \<and> postCh r' = postCh r \<and> running r' = running r
           \<and> (\<forall>a. a < nnext s \<longrightarrow> nodes s1 a = nodes s a)
           \<and> (\<forall>a. a < mnext s \<longrightarrow> maps s1 a = maps s a)"
proof -
  note fr = clone_frame [OF cl]
  from fail show ?thesis
  proof
    assume "pre ctx s1 cl = (Some e, s2, cl2) \<and> err = e"
    then show ?thesis using cur cl fr by (simp add: modify_def runPre_def)
  next
    assume a: "pre ctx s1 cl = (None, s2, cl2) \<and> fst (SaveMeta (disk r) (encode s2 cl2)) = Some e
                 \<and> err = ErrFailedTo ''persist'' e"
    then obtain d where d: "SaveMeta (disk r) (encode s2 cl2) = (Some e, d)"
      by (cases "SaveMeta (disk r) (encode s2 cl2)") auto
    show ?thesis using a d cur cl fr by (simp add: modify_def runPre_def persist_def Let_def)
  qed
qed

theorem modify_fails_unpublished_witness:
  "(\<exists>r' s'. modify ex_encode ex_SaveMeta [''t1''] [''p1'', ''p2'', ''p3'', ''p4'', ''p5''] ex_owner
              ex_store \<lparr>pre = ex_pre_fail, post = None, final = None\<rparr>
            = Inr (Some (ErrExternal 1), r', s')
          \<and> smap r' = Some ex_smap \<and> postCh r' = [])
   \<and> (\<exists>r' s'. modify ex_encode ex_SaveMeta [''t1''] [''p1'', ''p2'', ''p3'', ''p4'', ''p5''] ex_owner
              ex_store \<lparr>pre = ex_pre_blank, post = None, final = None\<rparr>
            = Inr (Some (ErrFailedTo ''persist'' (ErrExternal 5)), r', s')
          \<and> smap r' = Some ex_smap \<and> postCh r' = [])"
proof -
  have c: "smap ex_owner = Some ex_smap" by (simp add: ex_defs)
  have "\<exists>s1 cl. clone [''t1''] [''p1'', ''p2'', ''p3'', ''p4'', ''p5''] ex_store ex_smap = Inr (s1, cl)"
    by (simp add: clone_def init_smap_def alloc_map_def Let_def ex_smap_def)
  then obtain s1 cl where
    cl: "clone [''t1''] [''p1'', ''p2'', ''p3'', ''p4'', ''p5''] ex_store ex_smap = Inr (s1, cl)"
    by blast
  have f1: "(pre \<lparr>pre = ex_pre_fail, post = None, final = None\<rparr> s1 cl = (Some (ErrExternal 1), s1, cl)
              \<and> ErrExternal 1 = ErrExternal 1)
          \<or> (pre \<lparr>pre = ex_pre_fail, post = None, final = None\<rparr> s1 cl = (None, s1, cl)
              \<and> fst (ex_SaveMeta (disk ex_owner) (ex_encode s1 cl)) = Some (ErrExternal 1)
              \<and> ErrExternal 1 = ErrFailedTo ''persist'' (ErrExternal 1))"
    by (simp add: ex_pre_fail_def)
  have f2: "(pre \<lparr>pre = ex_pre_blank, post = None, final = None\<rparr> s1 cl
                = (Some (ErrExternal 5), s1, cl\<lparr>vstr := []\<rparr>)
              \<and> ErrFailedTo ''persist'' (ErrExternal 5) = ErrExternal 5)
          \<or> (pre \<lparr>pre = ex_pre_blank, post = None, final = None\<rparr> s1 cl = (None, s1, cl\<lparr>vstr := []\<rparr>)
              \<and> fst (ex_SaveMeta (disk ex_owner) (ex_encode s1 (cl\<lparr>vstr := []\<rparr>))) = Some (ErrExternal 5)
              \<and> ErrFailedTo ''persist'' (ErrExternal 5) = ErrFailedTo ''persist'' (ErrExternal 5))"
    by (simp add: ex_pre_blank_def ex_SaveMeta_def ex_encode_def)
  from modify_fails_unpublished [where encode = ex_encode and SaveMeta = ex_SaveMeta
         and ctx = "\<lparr>pre = ex_pre_fail, post = None, final = None\<rparr>"
         and e = "ErrExternal 1" and err = "ErrExternal 1" and ?s2.0 = s1 and ?cl2.0 = cl,
         OF c cl f1]
       modify_fails_unpublished [where encode = ex_encode and SaveMeta = ex_SaveMeta
         and ctx = "\<lparr>pre = ex_pre_blank, post = None, final = None\<rparr>"
         and e = "ErrExternal 5" and err = "ErrFailedTo ''persist'' (ErrExternal 5)"
         and ?s2.0 = s1 and ?cl2.0 = "cl\<lparr>vstr := []\<rparr>", OF c cl f2]
  show ?thesis by (auto simp: ex_owner_def)
qed

subsection \<open>The information committee\<close>

lemmas ic_defs = evictIC_def fillIC_def staffIC_def addIC_def IsIC_def clearNodeFlags_def
  setNodeFlags_def applyFlags_def set_node_flags_def map_put_def ICCount_def isIC_def IsSet_def
  IsAnySet_def Set_flags_def Clear_flags_def SnodeIC_def SnodeNonElectable_def
  NodeFlagsMaintDecomm_def SnodeMaintenance_def SnodeDecommission_def ic_after_def and_then_def
  ex_keys_def Let_def

lemma IC_or: "((f::64 word) OR 2) AND 2 = 2"
  by (simp add: word_ao_absorbs)

lemma IC_andnot: "((f::64 word) AND - 3) AND 2 = 0"
  by (simp add: and.assoc)

lemma NE_or: "((f::64 word) OR 2) AND 1 = f AND 1"
  by (simp add: bit.conj_disj_distrib2)

lemma NE_andnot: "((f::64 word) AND - 3) AND 1 = f AND 1"
  by (simp add: and.assoc)

lemma isIC_Set: "IsSet (Set_flags f SnodeIC) SnodeIC"
  by (simp add: IsSet_def Set_flags_def SnodeIC_def IC_or)

lemma isIC_Clear: "\<not> IsSet (Clear_flags f SnodeIC) SnodeIC"
  by (simp add: IsSet_def Clear_flags_def SnodeIC_def IC_andnot)

lemma NE_Set: "IsSet (Set_flags f SnodeIC) SnodeNonElectable = IsSet f SnodeNonElectable"
  by (simp add: IsSet_def Set_flags_def SnodeIC_def SnodeNonElectable_def NE_or)

lemma NE_Clear: "IsSet (Clear_flags f SnodeIC) SnodeNonElectable = IsSet f SnodeNonElectable"
  by (simp add: IsSet_def Clear_flags_def SnodeIC_def SnodeNonElectable_def NE_andnot)

lemma IC_not_maint: "\<not> IsAnySet SnodeIC NodeFlagsMaintDecomm"
  by (simp add: IsAnySet_def SnodeIC_def NodeFlagsMaintDecomm_def SnodeMaintenance_def
        SnodeDecommission_def)

lemma flags_only_refl: "flags_only s s"
  by (simp add: flags_only_def)

lemma flags_only_trans: "flags_only s s1 \<Longrightarrow> flags_only s1 s2 \<Longrightarrow> flags_only s s2"
  by (simp add: flags_only_def)

lemma flags_only_set:
  "IsSet f SnodeNonElectable = IsSet (Flags (nodes s a)) SnodeNonElectable
   \<Longrightarrow> flags_only s (set_node_flags s a f)"
  by (simp add: flags_only_def set_node_flags_def)

lemma wf_ic_flags_only:
  assumes "wf_ic s m" "flags_only s s'" "Tmap m' = Tmap m" "Pmap m' = Pmap m"
  shows "wf_ic s' m'"
  using assms by (simp add: wf_ic_def flags_only_def pmap_def tmap_def IsTarget_def)

lemma pmap_flags_only:
  "flags_only s s' \<Longrightarrow> Pmap m' = Pmap m \<Longrightarrow> pmap s' m' = pmap s m"
  by (simp add: flags_only_def pmap_def)

lemma wf_ic_lookup:
  assumes wf: "wf_ic s m" and k: "map_of (pmap s m) k = Some a"
  shows "DaemonID (nodes s a) = k" "\<not> IsTarget (nodes s a)" "GetProxy s m k = Some a"
    "GetNode s m k = Some a" "IsIC s m a = isIC (nodes s a)"
proof -
  from k have mem: "(k, a) \<in> set (pmap s m)" by (rule map_of_SomeD)
  with wf show id: "DaemonID (nodes s a) = k" and "\<not> IsTarget (nodes s a)"
    by (auto simp: wf_ic_def)
  show gp: "GetProxy s m k = Some a" using k by (simp add: GetProxy_def)
  from mem have "k \<in> fst ` set (pmap s m)" by force
  with wf have "k \<notin> fst ` set (tmap s m)" by (auto simp: wf_ic_def)
  then have "map_of (tmap s m) k = None" by (simp add: map_of_eq_None_iff)
  then show "GetNode s m k = Some a" using gp by (simp add: GetNode_def GetTarget_def)
  show "IsIC s m a = isIC (nodes s a)" using gp id by (simp add: IsIC_def)
qed

lemma applyFlags_wf:
  assumes wf: "wf_ic s m" and k: "map_of (pmap s m) k = Some a"
  shows "applyFlags s m a f = (set_node_flags s a f, m\<lparr>Version := Version m + 1\<rparr>)"
proof -
  note l = wf_ic_lookup [OF wf k]
  have "AList.update k a (maps s (Pmap m)) = maps s (Pmap m)"
    using k by (simp add: update_triv pmap_def)
  then have "map_put (set_node_flags s a f) (Pmap m) k a = set_node_flags s a f"
    by (simp add: map_put_def set_node_flags_def)
  then show ?thesis using l(1,2)
    by (simp add: applyFlags_def Let_def set_node_flags_def IsTarget_def)
qed

lemma wf_ic_distinct_snd:
  assumes "wf_ic s m"
  shows "distinct (map snd (pmap s m))"
proof -
  from assms have d: "distinct (map fst (pmap s m))"
    and i: "\<forall>x\<in>set (pmap s m). DaemonID (nodes s (snd x)) = fst x"
    by (auto simp: wf_ic_def)
  from d have da: "distinct (pmap s m)" and inj: "inj_on fst (set (pmap s m))"
    by (simp_all add: distinct_map)
  have "inj_on snd (set (pmap s m))"
  proof (rule inj_onI)
    fix x y assume x: "x \<in> set (pmap s m)" and y: "y \<in> set (pmap s m)" and e: "snd x = snd y"
    with i have "fst x = fst y" by metis
    with inj x y show "x = y" by (simp add: inj_on_def)
  qed
  with da show ?thesis by (simp add: distinct_map)
qed

lemma count_inc:
  assumes "distinct (map snd al)" "(k, a) \<in> set al" "\<not> P a" "Q a" "\<forall>b. b \<noteq> a \<longrightarrow> Q b = P b"
  shows "length (filter (\<lambda>(k, b). Q b) al) = Suc (length (filter (\<lambda>(k, b). P b) al))"
  using assms(1,2)
proof (induction al)
  case Nil
  then show ?case by simp
next
  case (Cons x al)
  obtain k' b where x: "x = (k', b)" by (cases x)
  show ?case
  proof (cases "b = a")
    case True
    with Cons.prems x have "a \<notin> snd ` set al" by simp
    then have "\<forall>y\<in>set al. snd y \<noteq> a" by auto
    then have "filter (\<lambda>(k, b). Q b) al = filter (\<lambda>(k, b). P b) al"
      using assms(5) by (intro filter_cong) auto
    with True x assms(3,4) show ?thesis by simp
  next
    case False
    with Cons.prems x have "(k, a) \<in> set al" "distinct (map snd al)" by auto
    with Cons.IH have "length (filter (\<lambda>(k, b). Q b) al) = Suc (length (filter (\<lambda>(k, b). P b) al))"
      by simp
    with False x assms(5) show ?thesis by simp
  qed
qed

lemma ICCount_set:
  assumes wf: "wf_ic s m" and k: "map_of (pmap s m) k = Some a"
    and n: "\<not> isIC (nodes s a)" and f: "IsSet f SnodeIC"
  shows "ICCount (set_node_flags s a f) m = ICCount s m + 1"
proof -
  from k have mem: "(k, a) \<in> set (pmap s m)" by (rule map_of_SomeD)
  have p: "pmap (set_node_flags s a f) m = pmap s m" by (simp add: pmap_def set_node_flags_def)
  have "length (filter (\<lambda>(k, b). isIC (nodes (set_node_flags s a f) b)) (pmap s m))
        = Suc (length (filter (\<lambda>(k, b). isIC (nodes s b)) (pmap s m)))"
    by (rule count_inc [where P = "\<lambda>b. isIC (nodes s b)"
                        and Q = "\<lambda>b. isIC (nodes (set_node_flags s a f) b)",
                        OF wf_ic_distinct_snd [OF wf] mem n])
       (simp_all add: set_node_flags_def isIC_def f)
  then show ?thesis by (simp add: ICCount_def p)
qed

lemma ICCount_clear:
  assumes wf: "wf_ic s m" and k: "map_of (pmap s m) k = Some a"
    and n: "isIC (nodes s a)" and f: "\<not> IsSet f SnodeIC"
  shows "ICCount (set_node_flags s a f) m = ICCount s m - 1"
proof -
  from k have mem: "(k, a) \<in> set (pmap s m)" by (rule map_of_SomeD)
  have p: "pmap (set_node_flags s a f) m = pmap s m" by (simp add: pmap_def set_node_flags_def)
  have "length (filter (\<lambda>(k, b). isIC (nodes s b)) (pmap s m))
        = Suc (length (filter (\<lambda>(k, b). isIC (nodes (set_node_flags s a f) b)) (pmap s m)))"
    by (rule count_inc [where Q = "\<lambda>b. isIC (nodes s b)"
                        and P = "\<lambda>b. isIC (nodes (set_node_flags s a f) b)",
                        OF wf_ic_distinct_snd [OF wf] mem])
       (simp_all add: set_node_flags_def isIC_def f n [unfolded isIC_def])
  then show ?thesis by (simp add: ICCount_def p)
qed

lemma addIC_wf:
  assumes wf: "wf_ic s m" and k: "map_of (pmap s m) k = Some a"
  shows "addIC s m (Some a) =
           (if isIC (nodes s a) then Inr (s, m)
            else Inr (set_node_flags s a (Set_flags (Flags (nodes s a)) SnodeIC),
                      m\<lparr>Version := Version m + 1\<rparr>))"
proof -
  note l = wf_ic_lookup [OF wf k]
  show ?thesis
    using l IC_not_maint applyFlags_wf [OF wf k]
    by (simp add: addIC_def setNodeFlags_def Let_def)
qed


lemma fillIC_loop_wf:
  assumes "wf_ic s m" "ICCount s m < dsz"
  shows "\<exists>s' m'. fillIC_loop dsz ks s m = Inr (s', m')
           \<and> flags_only s s'
           \<and> Tmap m' = Tmap m \<and> Pmap m' = Pmap m \<and> Primary m' = Primary m
           \<and> ICCount s m \<le> ICCount s' m' \<and> ICCount s' m' \<le> dsz
           \<and> (\<forall>a. isIC (nodes s a) \<longrightarrow> isIC (nodes s' a))
           \<and> (dsz \<le> ICCount s' m' \<or> full_on (set ks) s' m')"
  using assms
proof (induction ks arbitrary: s m)
  case Nil
  then show ?case by (simp add: flags_only_refl full_on_def)
next
  case (Cons k ks)
  from Cons.IH [OF Cons.prems] obtain s' m' where ih:
    "fillIC_loop dsz ks s m = Inr (s', m')" "flags_only s s'"
    "Tmap m' = Tmap m" "Pmap m' = Pmap m" "Primary m' = Primary m"
    "ICCount s m \<le> ICCount s' m'" "ICCount s' m' \<le> dsz"
    "\<forall>a. isIC (nodes s a) \<longrightarrow> isIC (nodes s' a)"
    "dsz \<le> ICCount s' m' \<or> full_on (set ks) s' m'" by blast
  have pm': "pmap s' m' = pmap s m" using ih(2,4) by (rule pmap_flags_only)
  have ne': "\<forall>a. IsSet (Flags (nodes s' a)) SnodeNonElectable = IsSet (Flags (nodes s a)) SnodeNonElectable"
    using ih(2) by (simp add: flags_only_def)
  show ?case
  proof (cases "map_of (pmap s m) k")
    case None
    then have e: "fillIC_loop dsz (k # ks) s m = fillIC_loop dsz ks s m" by simp
    have "full_on (set ks) s' m' \<Longrightarrow> full_on (set (k # ks)) s' m'"
      using None pm' by (simp add: full_on_def)
    with ih show ?thesis unfolding e by blast
  next
    case (Some a)
    show ?thesis
    proof (cases "IsSet (Flags (nodes s a)) SnodeNonElectable")
      case True
      then have e: "fillIC_loop dsz (k # ks) s m = fillIC_loop dsz ks s m" using Some by simp
      have "full_on (set ks) s' m' \<Longrightarrow> full_on (set (k # ks)) s' m'"
        using Some True pm' ne' by (simp add: full_on_def)
      with ih show ?thesis unfolding e by blast
    next
      case False
      note ad = addIC_wf [OF Cons.prems(1) Some]
      show ?thesis
      proof (cases "isIC (nodes s a)")
        case True
        then have e: "fillIC_loop dsz (k # ks) s m = fillIC_loop dsz ks s m"
          using Some False ad Cons.prems(2) by simp
        have "isIC (nodes s' a)" using True ih(8) by blast
        then have "full_on (set ks) s' m' \<Longrightarrow> full_on (set (k # ks)) s' m'"
          using Some pm' by (simp add: full_on_def)
        with ih show ?thesis unfolding e by blast
      next
        case nic: False
        define s1 where "s1 = set_node_flags s a (Set_flags (Flags (nodes s a)) SnodeIC)"
        define m1 where "m1 = m\<lparr>Version := Version m + 1\<rparr>"
        have a1: "addIC s m (Some a) = Inr (s1, m1)" using ad nic by (simp add: s1_def m1_def)
        have fo1: "flags_only s s1" unfolding s1_def by (rule flags_only_set) (rule NE_Set)
        have f1: "Tmap m1 = Tmap m" "Pmap m1 = Pmap m" "Primary m1 = Primary m"
          by (simp_all add: m1_def)
        have wf1: "wf_ic s1 m1" using Cons.prems(1) fo1 f1(1,2) by (rule wf_ic_flags_only)
        have c1: "ICCount s1 m1 = ICCount s m + 1"
        proof -
          have "ICCount s1 m = ICCount s m + 1"
            unfolding s1_def by (rule ICCount_set [OF Cons.prems(1) Some nic isIC_Set])
          then show ?thesis by (simp add: ICCount_def pmap_def m1_def)
        qed
        have ic1: "\<forall>b. isIC (nodes s b) \<longrightarrow> isIC (nodes s1 b)"
          by (simp add: s1_def set_node_flags_def isIC_def isIC_Set)
        have ia1: "isIC (nodes s1 a)"
          by (simp add: s1_def set_node_flags_def isIC_def isIC_Set)
        have pm1: "pmap s1 m1 = pmap s m" using fo1 f1(2) by (rule pmap_flags_only)
        show ?thesis
        proof (cases "dsz \<le> ICCount s1 m1")
          case True
          then have e: "fillIC_loop dsz (k # ks) s m = Inr (s1, m1)"
            using Some False a1 by simp
          have "ICCount s1 m1 \<le> dsz" using c1 Cons.prems(2) by simp
          with e fo1 f1 c1 ic1 True show ?thesis by auto
        next
          case lt: False
          then have e: "fillIC_loop dsz (k # ks) s m = fillIC_loop dsz ks s1 m1"
            using Some False a1 by simp
          from lt have lt1: "ICCount s1 m1 < dsz" by simp
          from Cons.IH [OF wf1 lt1] obtain s2 m2 where ih2:
            "fillIC_loop dsz ks s1 m1 = Inr (s2, m2)" "flags_only s1 s2"
            "Tmap m2 = Tmap m1" "Pmap m2 = Pmap m1" "Primary m2 = Primary m1"
            "ICCount s1 m1 \<le> ICCount s2 m2" "ICCount s2 m2 \<le> dsz"
            "\<forall>a. isIC (nodes s1 a) \<longrightarrow> isIC (nodes s2 a)"
            "dsz \<le> ICCount s2 m2 \<or> full_on (set ks) s2 m2" by blast
          have fo2: "flags_only s s2" using fo1 ih2(2) by (rule flags_only_trans)
          have pm2: "pmap s2 m2 = pmap s m"
            using pmap_flags_only [OF ih2(2,4)] pm1 by simp
          have "isIC (nodes s2 a)" using ia1 ih2(8) by blast
          then have fu: "full_on (set ks) s2 m2 \<Longrightarrow> full_on (set (k # ks)) s2 m2"
            using Some pm2 by (simp add: full_on_def)
          have c2: "ICCount s m \<le> ICCount s2 m2" using c1 ih2(6) by simp
          have ic2: "\<forall>b. isIC (nodes s b) \<longrightarrow> isIC (nodes s2 b)" using ic1 ih2(8) by blast
          have f2: "Tmap m2 = Tmap m" "Pmap m2 = Pmap m" "Primary m2 = Primary m"
            using ih2(3-5) f1 by simp_all
          from ih2(1) fo2 f2 c2 ih2(7) ic2 ih2(9) fu show ?thesis unfolding e by blast
        qed
      qed
    qed
  qed
qed

lemma fillIC_wf:
  assumes "wf_ic s m"
  shows "\<exists>s' m'. fillIC dsz ks s m = Inr (s', m')
           \<and> flags_only s s'
           \<and> Tmap m' = Tmap m \<and> Pmap m' = Pmap m \<and> Primary m' = Primary m
           \<and> ICCount s m \<le> ICCount s' m' \<and> ICCount s' m' \<le> max dsz (ICCount s m)
           \<and> (\<forall>a. isIC (nodes s a) \<longrightarrow> isIC (nodes s' a))
           \<and> (dsz \<le> ICCount s' m' \<or> full_on (set ks) s' m')"
proof (cases "dsz \<le> ICCount s m")
  case True
  then show ?thesis by (simp add: fillIC_def flags_only_refl)
next
  case False
  then have lt: "ICCount s m < dsz" by simp
  from fillIC_loop_wf [OF assms lt, of ks] obtain s' m' where
    "fillIC_loop dsz ks s m = Inr (s', m')" "flags_only s s'"
    "Tmap m' = Tmap m" "Pmap m' = Pmap m" "Primary m' = Primary m"
    "ICCount s m \<le> ICCount s' m'" "ICCount s' m' \<le> dsz"
    "\<forall>a. isIC (nodes s a) \<longrightarrow> isIC (nodes s' a)"
    "dsz \<le> ICCount s' m' \<or> full_on (set ks) s' m'" by blast
  with False show ?thesis by (auto simp: fillIC_def)
qed


lemma clearNodeFlags_wf:
  assumes wf: "wf_ic s m" and k: "map_of (pmap s m) k = Some a"
  shows "clearNodeFlags s m k SnodeIC =
           Inr (set_node_flags s a (Clear_flags (Flags (nodes s a)) SnodeIC),
                m\<lparr>Version := Version m + 1\<rparr>)"
  using wf_ic_lookup(4) [OF wf k] applyFlags_wf [OF wf k]
  by (simp add: clearNodeFlags_def)

lemma evictIC_loop_wf:
  assumes wf: "wf_ic s m" and p: "Primary m = Some p"
  shows "\<exists>s' m'. evictIC_loop ks s m = Inr (s', m')
           \<and> flags_only s s'
           \<and> Tmap m' = Tmap m \<and> Pmap m' = Pmap m \<and> Primary m' = Primary m
           \<and> (\<forall>b. DaemonID (nodes s b) = DaemonID (nodes s p) \<longrightarrow> nodes s' b = nodes s b)
           \<and> (if \<exists>k\<in>set ks. \<exists>a. map_of (pmap s m) k = Some a \<and> k \<noteq> DaemonID (nodes s p)
                                  \<and> isIC (nodes s a)
               then ICCount s' m' = ICCount s m - 1 else s' = s \<and> m' = m)"
proof (induction ks)
  case Nil
  then show ?case by (simp add: flags_only_refl)
next
  case (Cons k ks)
  let ?cand = "\<lambda>k. \<exists>a. map_of (pmap s m) k = Some a \<and> k \<noteq> DaemonID (nodes s p) \<and> isIC (nodes s a)"
  show ?case
  proof (cases "?cand k")
    case False
    have e: "evictIC_loop (k # ks) s m = evictIC_loop ks s m"
    proof (cases "map_of (pmap s m) k")
      case None
      then show ?thesis by simp
    next
      case (Some a)
      with False have "k = DaemonID (nodes s p) \<or> \<not> isIC (nodes s a)" by simp
      then show ?thesis using Some p wf_ic_lookup(5) [OF wf Some] by simp
    qed
    have "(\<exists>k'\<in>set (k # ks). ?cand k') = (\<exists>k'\<in>set ks. ?cand k')" using False by auto
    with Cons.IH show ?thesis unfolding e by simp
  next
    case True
    then obtain a where a: "map_of (pmap s m) k = Some a" "k \<noteq> DaemonID (nodes s p)"
      "isIC (nodes s a)" by blast
    define s1 where "s1 = set_node_flags s a (Clear_flags (Flags (nodes s a)) SnodeIC)"
    define m1 where "m1 = m\<lparr>Version := Version m + 1\<rparr>"
    have e: "evictIC_loop (k # ks) s m = Inr (s1, m1)"
      using a p wf_ic_lookup(5) [OF wf a(1)] clearNodeFlags_wf [OF wf a(1)]
      by (simp add: s1_def m1_def)
    have fo: "flags_only s s1" unfolding s1_def by (rule flags_only_set) (rule NE_Clear)
    have f: "Tmap m1 = Tmap m" "Pmap m1 = Pmap m" "Primary m1 = Primary m"
      by (simp_all add: m1_def)
    have ida: "DaemonID (nodes s a) = k" by (rule wf_ic_lookup(1) [OF wf a(1)])
    have un: "\<forall>b. DaemonID (nodes s b) = DaemonID (nodes s p) \<longrightarrow> nodes s1 b = nodes s b"
      using ida a(2) by (auto simp: s1_def set_node_flags_def)
    have c: "ICCount s1 m1 = ICCount s m - 1"
    proof -
      have "ICCount s1 m = ICCount s m - 1"
        unfolding s1_def by (rule ICCount_clear [OF wf a(1) a(3) isIC_Clear])
      then show ?thesis by (simp add: ICCount_def pmap_def m1_def)
    qed
    have "\<exists>k'\<in>set (k # ks). ?cand k'" using True by simp
    with e fo f un c show ?thesis by simp
  qed
qed

lemma length_le_1:
  assumes "distinct xs" "set xs \<subseteq> {x}"
  shows "length xs \<le> 1"
proof -
  have "card (set xs) \<le> card {x}" using assms(2) by (intro card_mono) simp_all
  with assms(1) show ?thesis by (simp add: distinct_card)
qed

lemma exists_candidate:
  assumes wf: "wf_ic s m" and c: "2 \<le> ICCount s m" and o: "set ks = fst ` set (pmap s m)"
  shows "\<exists>k\<in>set ks. \<exists>a. map_of (pmap s m) k = Some a \<and> k \<noteq> x \<and> isIC (nodes s a)"
proof -
  let ?F = "filter (\<lambda>(k, a). isIC (nodes s a)) (pmap s m)"
  from wf have d: "distinct (map fst (pmap s m))" by (simp add: wf_ic_def)
  then have dF: "distinct (map fst ?F)" by (rule distinct_map_filter)
  from c have l: "2 \<le> length (map fst ?F)" by (simp add: ICCount_def)
  have "\<not> set (map fst ?F) \<subseteq> {x}"
  proof
    assume "set (map fst ?F) \<subseteq> {x}"
    with dF have "length (map fst ?F) \<le> 1" by (rule length_le_1)
    with l show False by simp
  qed
  then obtain y where y: "y \<in> set ?F" "fst y \<noteq> x" by auto
  obtain k a where ye: "y = (k, a)" by (cases y)
  with y have ka: "(k, a) \<in> set ?F" "k \<noteq> x" by simp_all
  then have mem: "(k, a) \<in> set (pmap s m)" and ic: "isIC (nodes s a)" by auto
  from mem d have "map_of (pmap s m) k = Some a" by simp
  moreover from mem o have "k \<in> set ks" by force
  ultimately show ?thesis using ka(2) ic by blast
qed

lemma run_icops_wf:
  assumes "wf_ic s m" "ICCount s m \<le> dsz"
  shows "\<exists>s' m'. run_icops dsz ops s m = Inr (s', m') \<and> wf_ic s' m' \<and> ICCount s' m' \<le> dsz"
  using assms
proof (induction ops arbitrary: s m)
  case Nil
  then show ?case by simp
next
  case (Cons op ops)
  show ?case
  proof (cases op)
    case (FillIC ks)
    from fillIC_wf [OF Cons.prems(1), of dsz ks] obtain s1 m1 where
      f: "fillIC dsz ks s m = Inr (s1, m1)" "flags_only s s1" "Tmap m1 = Tmap m" "Pmap m1 = Pmap m"
         "ICCount s1 m1 \<le> max dsz (ICCount s m)" by blast
    have wf1: "wf_ic s1 m1" using Cons.prems(1) f(2,3,4) by (rule wf_ic_flags_only)
    have c1: "ICCount s1 m1 \<le> dsz" using f(5) Cons.prems(2) by simp
    from Cons.IH [OF wf1 c1] f(1) FillIC show ?thesis by simp
  next
    case (EvictIC ks)
    have "evictIC dsz ks s m = Inr (s, m)" using Cons.prems(2) by (simp add: evictIC_def)
    with Cons.IH [OF Cons.prems] EvictIC show ?thesis by simp
  qed
qed

text \<open>
  What the code keeps: on a well-formed snapshot whose IC count is within
  \<^verbatim>\<open>DefaultICSize\<close>, every sequence of \<^verbatim>\<open>_fillIC\<close> and \<^verbatim>\<open>evictIC\<close> calls, whatever
  the orders of their loops, returns with the IC count within \<^verbatim>\<open>DefaultICSize\<close>.
  What it does not: a call of \<^verbatim>\<open>evictIC\<close> on a well-formed snapshot over the bound
  leaves its loop after the first member it evicts, so the count goes down by one and
  no further, whatever it was.
\<close>

lemma ic_bound:
  assumes wf: "wf_ic s m"
  shows "(ICCount s m \<le> dsz \<longrightarrow>
            (\<exists>s' m'. run_icops dsz ops s m = Inr (s', m') \<and> ICCount s' m' \<le> dsz))
       \<and> (dsz < ICCount s m \<and> 1 \<le> dsz \<and> Primary m \<noteq> None \<and> is_order ks (pmap s m) \<longrightarrow>
            (\<exists>s' m'. evictIC dsz ks s m = Inr (s', m') \<and> ICCount s' m' = ICCount s m - 1))"
proof (intro conjI impI)
  assume "ICCount s m \<le> dsz"
  from run_icops_wf [OF wf this, of ops]
  show "\<exists>s' m'. run_icops dsz ops s m = Inr (s', m') \<and> ICCount s' m' \<le> dsz" by blast
next
  assume a: "dsz < ICCount s m \<and> 1 \<le> dsz \<and> Primary m \<noteq> None \<and> is_order ks (pmap s m)"
  then obtain p where p: "Primary m = Some p" by auto
  from a have c2: "2 \<le> ICCount s m" and o: "set ks = fst ` set (pmap s m)"
    by (simp_all add: is_order_def)
  from exists_candidate [OF wf c2 o, of "DaemonID (nodes s p)"]
  have ex: "\<exists>k\<in>set ks. \<exists>a. map_of (pmap s m) k = Some a \<and> k \<noteq> DaemonID (nodes s p)
                                  \<and> isIC (nodes s a)" .
  from evictIC_loop_wf [OF wf p, of ks] ex obtain s' m' where
    "evictIC_loop ks s m = Inr (s', m')" "ICCount s' m' = ICCount s m - 1" by auto
  with a show "\<exists>s' m'. evictIC dsz ks s m = Inr (s', m') \<and> ICCount s' m' = ICCount s m - 1"
    by (simp add: evictIC_def)
qed


lemma ic_bound_example:
  "wf_ic ex_store_b ex_smap \<and> ICCount ex_store_b ex_smap \<le> 3
   \<and> (\<exists>s' m'. run_icops 3 [FillIC ex_keys, EvictIC ex_keys, FillIC ex_keys] ex_store_b ex_smap
                  = Inr (s', m') \<and> ICCount s' m' \<le> 3)
   \<and> wf_ic ex_store ex_smap \<and> 4 < ICCount ex_store ex_smap \<and> Primary ex_smap \<noteq> None
   \<and> is_order ex_keys (pmap ex_store ex_smap)
   \<and> (\<exists>s' m'. evictIC 4 ex_keys ex_store ex_smap = Inr (s', m') \<and> ICCount s' m' = 4)"
proof -
  have w1: "wf_ic ex_store_b ex_smap"
    by (simp add: wf_ic_def ex_store_b_def ex_defs acc_defs)
  have c1: "ICCount ex_store_b ex_smap \<le> 3"
    by (simp add: ICCount_def isIC_def IsSet_def SnodeIC_def ex_store_b_def ex_defs acc_defs)
  have w2: "wf_ic ex_store ex_smap"
    by (simp add: wf_ic_def ex_defs acc_defs)
  have c2: "ICCount ex_store ex_smap = 5"
    by (simp add: ICCount_def isIC_def IsSet_def SnodeIC_def ex_defs acc_defs)
  have p2: "Primary ex_smap \<noteq> None" by (simp add: ex_defs)
  have o2: "is_order ex_keys (pmap ex_store ex_smap)"
    by (auto simp: is_order_def ex_keys_def ex_defs acc_defs)
  from ic_bound [OF w1, of 3 "[FillIC ex_keys, EvictIC ex_keys, FillIC ex_keys]"] c1
  have r1: "\<exists>s' m'. run_icops 3 [FillIC ex_keys, EvictIC ex_keys, FillIC ex_keys] ex_store_b ex_smap
                  = Inr (s', m') \<and> ICCount s' m' \<le> 3" by blast
  from ic_bound [OF w2, of 4 _ ex_keys] c2 p2 o2
  have r2: "\<exists>s' m'. evictIC 4 ex_keys ex_store ex_smap = Inr (s', m') \<and> ICCount s' m' = 4"
    by simp
  from w1 c1 r1 w2 c2 p2 o2 r2 show ?thesis by simp
qed

lemma ex_smap_well_formed: "wf_ic ex_store ex_smap"
  by (simp add: wf_ic_def ex_defs acc_defs)

text \<open>
  C1. After any sequence of \<^verbatim>\<open>_fillIC\<close> and \<^verbatim>\<open>evictIC\<close> calls the IC has at most
  \<^verbatim>\<open>DefaultICSize\<close> members, and one call of \<^verbatim>\<open>evictIC\<close> on a snapshot over the
  bound brings it back within the bound; the comment on \<^verbatim>\<open>evictIC\<close> says the same
  (``ensure num IC members doesn't exceed max value''). The code does not do it: on
  the well-formed, valid snapshot \<open>ex_smap\<close>, with five members of the IC and
  \<^verbatim>\<open>DefaultICSize\<close> 3, one call of \<^verbatim>\<open>evictIC\<close> leaves four members, and so does a
  call of \<^verbatim>\<open>_fillIC\<close> followed by one of \<^verbatim>\<open>evictIC\<close>.
\<close>

theorem evictIC_evicts_only_one:
  "validate uuid_len9 ex_store (Some ex_smap) = Inr None
   \<and> ICCount ex_store ex_smap = 5
   \<and> ic_after (evictIC 3 ex_keys ex_store ex_smap) = Some 4
   \<and> ic_after (run_icops 3 [FillIC ex_keys, EvictIC ex_keys] ex_store ex_smap) = Some 4"
  by (simp add: ic_defs ex_defs acc_defs wf_ic_def validate_def)

lemma fillIC_loop_full:
  assumes wf: "wf_ic s m" and fu: "full_on (fst ` set (pmap s m)) s m" and lt: "ICCount s m < dsz"
  shows "fillIC_loop dsz ks s m = Inr (s, m)"
proof (induction ks)
  case Nil
  then show ?case by simp
next
  case (Cons k ks)
  show ?case
  proof (cases "map_of (pmap s m) k")
    case None
    with Cons show ?thesis by simp
  next
    case (Some a)
    then have "(k, a) \<in> set (pmap s m)" by (rule map_of_SomeD)
    then have kin: "k \<in> fst ` set (pmap s m)" by force
    show ?thesis
    proof (cases "IsSet (Flags (nodes s a)) SnodeNonElectable")
      case True
      with Some Cons show ?thesis by simp
    next
      case False
      with fu kin Some have "isIC (nodes s a)" unfolding full_on_def by blast
      with addIC_wf [OF wf Some] have "addIC s m (Some a) = Inr (s, m)" by simp
      with Some False lt Cons show ?thesis by simp
    qed
  qed
qed

text \<open>
  Where the first call of \<^verbatim>\<open>staffIC\<close> ends within the bound, the second call changes
  nothing: on a well-formed snapshot whose primary is one of its proxies, when
  \<^verbatim>\<open>staffIC\<close> has returned with the IC count within \<^verbatim>\<open>DefaultICSize\<close>, a second call,
  whatever the orders of its loops, returns the same store and the same snapshot.
\<close>

lemma staffIC_idempotent:
  assumes wf: "wf_ic s m" and p: "Primary m = Some p"
    and pres: "GetProxy s m (DaemonID (nodes s p)) \<noteq> None"
    and okf: "is_order kf (pmap s m)"
    and r: "staffIC dsz kf ke s m = Inr (s1, m1)"
    and b: "ICCount s1 m1 \<le> dsz"
  shows "staffIC dsz kf' ke' s1 m1 = Inr (s1, m1)"
proof -
  let ?pid = "DaemonID (nodes s p)"
  from pres obtain ap where ap: "map_of (pmap s m) ?pid = Some ap"
    by (auto simp: GetProxy_def)
  note l = wf_ic_lookup [OF wf ap]
  \<comment> \<open>the first call: addIC\<close>
  have a_eq: "addIC s m (Some p) = addIC s m (Some ap)"
    using l by (simp add: addIC_def IsIC_def)
  define sa where "sa = (if isIC (nodes s ap) then s
                         else set_node_flags s ap (Set_flags (Flags (nodes s ap)) SnodeIC))"
  define ma where "ma = (if isIC (nodes s ap) then m else m\<lparr>Version := Version m + 1\<rparr>)"
  have a1: "addIC s m (Primary m) = Inr (sa, ma)"
    using a_eq addIC_wf [OF wf ap] p by (simp add: sa_def ma_def)
  have foa: "flags_only s sa"
    unfolding sa_def using flags_only_refl flags_only_set [OF NE_Set] by simp
  have fa: "Tmap ma = Tmap m" "Pmap ma = Pmap m" "Primary ma = Some p"
    using p by (simp_all add: ma_def)
  have ica: "isIC (nodes sa ap)"
    by (simp add: sa_def set_node_flags_def isIC_def isIC_Set)
  have ida: "DaemonID (nodes sa p) = ?pid" using foa by (simp add: flags_only_def)
  define m2 where "m2 = ma\<lparr>Primary := Some ap\<rparr>"
  have f2: "Tmap m2 = Tmap m" "Pmap m2 = Pmap m" "Primary m2 = Some ap"
    using fa by (simp_all add: m2_def)
  have wfa: "wf_ic sa ma" using wf foa fa(1,2) by (rule wf_ic_flags_only)
  have wf2: "wf_ic sa m2" using wf foa f2(1,2) by (rule wf_ic_flags_only)
  have pma: "pmap sa ma = pmap s m" using foa fa(2) by (rule pmap_flags_only)
  have pm2: "pmap sa m2 = pmap s m" using foa f2(2) by (rule pmap_flags_only)
  have gn: "GetNode sa ma (DaemonID (nodes sa p)) = Some ap"
    using wf_ic_lookup(4) [OF wfa, of ?pid ap] ap pma ida by simp
  \<comment> \<open>the first call: fill and evict\<close>
  from fillIC_wf [OF wf2, of dsz kf] obtain sf mf where
    fl: "fillIC dsz kf sa m2 = Inr (sf, mf)" "flags_only sa sf"
        "Tmap mf = Tmap m2" "Pmap mf = Pmap m2" "Primary mf = Primary m2"
        "\<forall>a. isIC (nodes sa a) \<longrightarrow> isIC (nodes sf a)"
        "dsz \<le> ICCount sf mf \<or> full_on (set kf) sf mf" by blast
  have ev: "evictIC dsz ke sf mf = Inr (s1, m1)"
    using r a1 fa(3) gn fl(1) by (simp add: staffIC_def m2_def)
  have wff: "wf_ic sf mf" using wf2 fl(2,3,4) by (rule wf_ic_flags_only)
  have pf: "Primary mf = Some ap" using fl(5) f2(3) by simp
  have icf: "isIC (nodes sf ap)" using ica fl(6) by blast
  have fin: "flags_only sf s1 \<and> Tmap m1 = Tmap mf \<and> Pmap m1 = Pmap mf \<and> Primary m1 = Primary mf
             \<and> nodes s1 ap = nodes sf ap
             \<and> (dsz \<le> ICCount s1 m1 \<or> full_on (set kf) s1 m1)"
  proof (cases "ICCount sf mf \<le> dsz")
    case True
    with ev have "s1 = sf" "m1 = mf" by (simp_all add: evictIC_def)
    with fl(7) show ?thesis by (simp add: flags_only_refl)
  next
    case False
    with ev have lo: "evictIC_loop ke sf mf = Inr (s1, m1)" by (simp add: evictIC_def)
    from evictIC_loop_wf [OF wff pf, of ke] lo have e:
      "flags_only sf s1" "Tmap m1 = Tmap mf" "Pmap m1 = Pmap mf" "Primary m1 = Primary mf"
      "\<forall>b. DaemonID (nodes sf b) = DaemonID (nodes sf ap) \<longrightarrow> nodes s1 b = nodes sf b"
      "ICCount s1 m1 = ICCount sf mf - 1 \<or> (s1 = sf \<and> m1 = mf)"
      by (auto split: if_splits)
    from e(6) have "dsz \<le> ICCount s1 m1 \<or> full_on (set kf) s1 m1"
    proof
      assume "ICCount s1 m1 = ICCount sf mf - 1"
      with False show ?thesis by simp
    next
      assume "s1 = sf \<and> m1 = mf"
      with fl(7) show ?thesis by simp
    qed
    with e(1-5) show ?thesis by simp
  qed
  \<comment> \<open>the state after the first call\<close>
  have fo1: "flags_only s s1"
    using flags_only_trans [OF flags_only_trans [OF foa fl(2)]] fin by blast
  have f1: "Tmap m1 = Tmap m" "Pmap m1 = Pmap m" "Primary m1 = Some ap"
    using fin fl(3,4) f2 pf by simp_all
  have wf1: "wf_ic s1 m1" using wf fo1 f1(1,2) by (rule wf_ic_flags_only)
  have pm1: "pmap s1 m1 = pmap s m" using fo1 f1(2) by (rule pmap_flags_only)
  have ap1: "map_of (pmap s1 m1) ?pid = Some ap" using ap pm1 by simp
  have ic1: "isIC (nodes s1 ap)" using fin icf by simp
  note l1 = wf_ic_lookup [OF wf1 ap1]
  \<comment> \<open>the second call\<close>
  have s_add: "addIC s1 m1 (Primary m1) = Inr (s1, m1)"
    using addIC_wf [OF wf1 ap1] ic1 f1(3) by simp
  have s_pri: "m1\<lparr>Primary := GetNode s1 m1 (DaemonID (nodes s1 ap))\<rparr> = m1"
    using l1(1,4) f1(3) by simp
  have s_fill: "fillIC dsz kf' s1 m1 = Inr (s1, m1)"
  proof (cases "dsz \<le> ICCount s1 m1")
    case True
    then show ?thesis by (simp add: fillIC_def)
  next
    case False
    with fin have "full_on (set kf) s1 m1" by blast
    moreover have "set kf = fst ` set (pmap s1 m1)" using okf pm1 by (simp add: is_order_def)
    ultimately have fu: "full_on (fst ` set (pmap s1 m1)) s1 m1" by simp
    from False have "ICCount s1 m1 < dsz" by simp
    from fillIC_loop_full [OF wf1 fu this, of kf'] False show ?thesis by (simp add: fillIC_def)
  qed
  have s_ev: "evictIC dsz ke' s1 m1 = Inr (s1, m1)" using b by (simp add: evictIC_def)
  show ?thesis
    using s_add f1(3) s_pri s_fill s_ev by (simp add: staffIC_def)
qed

lemma staffIC_idempotent_example:
  "wf_ic ex_store_b ex_smap \<and> Primary ex_smap = Some 0
   \<and> GetProxy ex_store_b ex_smap (DaemonID (nodes ex_store_b 0)) \<noteq> None
   \<and> is_order ex_keys (pmap ex_store_b ex_smap)
   \<and> (\<exists>s1 m1. staffIC 3 ex_keys ex_keys ex_store_b ex_smap = Inr (s1, m1)
         \<and> ICCount s1 m1 = 3 \<and> Version m1 = 12
         \<and> staffIC 3 [''p1'', ''p2'', ''p3'', ''p4'', ''p5''] ex_keys s1 m1 = Inr (s1, m1))"
proof -
  have w: "wf_ic ex_store_b ex_smap"
    by (simp add: wf_ic_def ex_store_b_def ex_defs acc_defs)
  have p: "Primary ex_smap = Some 0" by (simp add: ex_defs)
  have g: "GetProxy ex_store_b ex_smap (DaemonID (nodes ex_store_b 0)) \<noteq> None"
    by (simp add: ex_store_b_def ex_defs acc_defs)
  have o: "is_order ex_keys (pmap ex_store_b ex_smap)"
    by (auto simp: is_order_def ex_keys_def ex_store_b_def ex_defs acc_defs)
  have "\<exists>s1 m1. staffIC 3 ex_keys ex_keys ex_store_b ex_smap = Inr (s1, m1)
           \<and> ICCount s1 m1 = 3 \<and> Version m1 = 12"
    by (simp add: ic_defs ex_store_b_def ex_defs acc_defs)
  then obtain s1 m1 where r: "staffIC 3 ex_keys ex_keys ex_store_b ex_smap = Inr (s1, m1)"
    and c: "ICCount s1 m1 = 3" and v: "Version m1 = 12" by blast
  from c have b: "ICCount s1 m1 \<le> 3" by simp
  from staffIC_idempotent [OF w p g o r b, of "[''p1'', ''p2'', ''p3'', ''p4'', ''p5'']" ex_keys]
    r c v w p g o show ?thesis by blast
qed

text \<open>
  C7. \<^verbatim>\<open>staffIC\<close> is idempotent: a second call with no change of topology in between
  leaves maps, node flags, primary and version as they are. The code does not do it
  where \<^verbatim>\<open>evictIC\<close> has not restored the bound: on the snapshot \<open>ex_smap\<close>, with five
  members of the IC and \<^verbatim>\<open>DefaultICSize\<close> 3, the first call of \<^verbatim>\<open>staffIC\<close> leaves
  four members at version 11 and the second call evicts another, leaving three
  members at version 12.
\<close>

theorem staffIC_second_call_evicts:
  "ic_after (staffIC 3 ex_keys ex_keys ex_store ex_smap) = Some 4
   \<and> version_after (staffIC 3 ex_keys ex_keys ex_store ex_smap) = Some 11
   \<and> ic_after (and_then (staffIC 3 ex_keys ex_keys ex_store ex_smap) (staffIC 3 ex_keys ex_keys))
       = Some 3
   \<and> version_after (and_then (staffIC 3 ex_keys ex_keys ex_store ex_smap)
                              (staffIC 3 ex_keys ex_keys)) = Some 12"
  by (simp add: ic_defs ex_defs acc_defs version_after_def)

end
